theory Spec2Isabelle
  imports Main "HOL-Library.Multiset"
begin

section \<open>Data model\<close>

text \<open>
  The repository ranks players by level: \<^verbatim>\<open>Offline::heapRank\<close> and
  \<^verbatim>\<open>Offline::quickSelectRank\<close> work on a whole vector, \<^verbatim>\<open>Online::rankIncoming\<close>
  drains a \<^verbatim>\<open>PlayerStream\<close>. C++ members end in an underscore (\<^verbatim>\<open>level_\<close>), which
  is not a legal end of an Isabelle name, so member \<^verbatim>\<open>x_\<close> is written \<open>x_m\<close> throughout.
  Values of type \<^verbatim>\<open>size_t\<close> are natural numbers; the one subtraction of the sources that can
  wrap (\<^verbatim>\<open>remaining\<close>) has the wrap-around modulo \<open>2 ^ 64\<close> written out.
\<close>

text \<open>
  Modelled from the spec: the header declaring \<^verbatim>\<open>Player\<close> is not among the sources. The
  spec gives a ranked entity an ordering key \<^verbatim>\<open>level\<close> and an opaque payload; the sources
  read the member \<^verbatim>\<open>level_\<close> and store it in a map of \<^verbatim>\<open>size_t\<close> values. The payload is
  the player's name.
\<close>

record Player =
  name_m :: string
  level_m :: nat

text \<open>
  Modelled from the spec: \<^verbatim>\<open>Player::operator<\<close>, which \<^verbatim>\<open>std::make_heap\<close>,
  \<^verbatim>\<open>std::pop_heap\<close> and \<^verbatim>\<open>std::sort\<close> use when no comparator is passed, is declared in the
  missing header. The spec defines the order of entities by \<^verbatim>\<open>level\<close> alone.
\<close>

definition player_less :: "Player \<Rightarrow> Player \<Rightarrow> bool" where
  "player_less a b = (level_m a < level_m b)"

text \<open>
  \<^verbatim>\<open>RankingResult\<close>: the members \<^verbatim>\<open>top_\<close> and \<^verbatim>\<open>cutoffs_\<close>. The member \<^verbatim>\<open>elapsed_\<close> is a
  wall-clock measurement and is left out.
\<close>

record RankingResult =
  top_m :: "Player list"
  cutoffs_m :: "nat \<rightharpoonup> nat"

text \<open>
  Failures. \<open>Exhausted\<close> is the \<^verbatim>\<open>std::runtime_error\<close> thrown by
  \<^verbatim>\<open>VectorPlayerStream::nextPlayer\<close>. The other two are operations whose behaviour C++
  leaves undefined, made visible as results: \<^verbatim>\<open>front()\<close> of an empty vector and \<^verbatim>\<open>%\<close> with
  a zero divisor.
\<close>

datatype error = Exhausted | EmptyFront | DivisionByZero

section \<open>The vector-backed player stream (PlayerStream.cpp)\<close>

record VectorPlayerStream =
  players_m :: "Player list"
  currentIndex_m :: nat

definition VectorPlayerStream_init :: "Player list \<Rightarrow> VectorPlayerStream" where
  "VectorPlayerStream_init players = \<lparr>players_m = players, currentIndex_m = 0\<rparr>"

definition nextPlayer :: "VectorPlayerStream \<Rightarrow> error + (Player \<times> VectorPlayerStream)" where
  "nextPlayer s =
     (if currentIndex_m s \<ge> length (players_m s) then Inl Exhausted
      else Inr (players_m s ! currentIndex_m s, s\<lparr>currentIndex_m := currentIndex_m s + 1\<rparr>))"

text \<open>Subtraction of two \<^verbatim>\<open>size_t\<close> values, which wraps modulo \<open>2 ^ 64\<close>.\<close>

definition size_t_sub :: "nat \<Rightarrow> nat \<Rightarrow> nat" where
  "size_t_sub a b = nat ((int a - int b) mod 2 ^ 64)"

definition remaining :: "VectorPlayerStream \<Rightarrow> nat" where
  "remaining s = size_t_sub (length (players_m s)) (currentIndex_m s)"

text \<open>
  The states a stream object can be in: the constructor sets the cursor to 0 and
  \<^verbatim>\<open>nextPlayer\<close> moves it only while it is below the size, and the size of a vector is
  itself a \<^verbatim>\<open>size_t\<close>.
\<close>

definition valid_stream :: "VectorPlayerStream \<Rightarrow> bool" where
  "valid_stream s = (currentIndex_m s \<le> length (players_m s) \<and> length (players_m s) < 2 ^ 64)"

text \<open>The players a stream has not handed out yet.\<close>

definition pending :: "VectorPlayerStream \<Rightarrow> Player list" where
  "pending s = drop (currentIndex_m s) (players_m s)"

section \<open>Heap operations of the standard library\<close>

text \<open>
  \<^verbatim>\<open>std::swap\<close> / \<^verbatim>\<open>std::iter_swap\<close> of two positions of a vector.
\<close>

definition swap :: "'a list \<Rightarrow> nat \<Rightarrow> nat \<Rightarrow> 'a list" where
  "swap xs i j = xs[i := xs ! j, j := xs ! i]"

text \<open>
  \<^verbatim>\<open>std::make_heap\<close> and \<^verbatim>\<open>std::pop_heap\<close> are library routines: the C++ standard fixes
  their result only up to the heap property (no parent compares less than a child under the
  comparator \<open>cmp\<close>) and the multiset of elements. They are modelled by the usual array
  algorithm: \<open>sift_down\<close> moves the element at \<open>cur\<close> down the first \<open>n\<close> positions,
  \<open>make_heap\<close> sifts every inner node, last to first, and \<open>pop_heap\<close> on the first \<open>n\<close>
  positions swaps the root with position \<open>n - 1\<close> and sifts the new root down the first
  \<open>n - 1\<close> positions.
\<close>

function sift_down :: "('a \<Rightarrow> 'a \<Rightarrow> bool) \<Rightarrow> 'a list \<Rightarrow> nat \<Rightarrow> nat \<Rightarrow> 'a list" where
  "sift_down cmp xs n cur =
     (let left = 2 * cur + 1;
          right = 2 * cur + 2;
          best = cur;
          best = (if left < n \<and> cmp (xs ! best) (xs ! left) then left else best);
          best = (if right < n \<and> cmp (xs ! best) (xs ! right) then right else best)
      in if best = cur then xs else sift_down cmp (swap xs cur best) n best)"
  by pat_completeness auto
termination
  by (relation "measure (\<lambda>(cmp, xs, n, cur). n - cur)") (auto simp: Let_def split: if_splits)

declare sift_down.simps [simp del]

definition make_heap :: "('a \<Rightarrow> 'a \<Rightarrow> bool) \<Rightarrow> 'a list \<Rightarrow> 'a list" where
  "make_heap cmp xs =
     fold (\<lambda>i ys. sift_down cmp ys (length ys) i) (rev [0..<length xs div 2]) xs"

definition pop_heap :: "('a \<Rightarrow> 'a \<Rightarrow> bool) \<Rightarrow> 'a list \<Rightarrow> nat \<Rightarrow> 'a list" where
  "pop_heap cmp xs n = (if n \<le> 1 then xs else sift_down cmp (swap xs 0 (n - 1)) (n - 1) 0)"

section \<open>Offline::heapRank\<close>

text \<open>
  \<^verbatim>\<open>tenPer = std::floor(0.1 * players.size())\<close> is the integer quotient of the size by
  ten: the double nearest to one tenth lies above it by a relative \<open>2 ^ -54\<close>, so for a
  multiple of ten the rounded product is never below the exact quotient and stays far below
  the next integer, and for any other size (below \<open>2 ^ 50\<close>) it stays strictly between two
  integers.
  The function returns the result and the reordered vector, which the source changes in
  place.
\<close>

definition heapRank :: "Player list \<Rightarrow> RankingResult \<times> Player list" where
  "heapRank players =
     (let tenPer = length players div 10;
          players = make_heap player_less players;
          players = fold (\<lambda>i ps. pop_heap player_less ps (length ps - i)) [0..<tenPer] players;
          top_v = drop (length players - tenPer) players
      in (\<lparr>top_m = top_v, cutoffs_m = Map.empty\<rparr>, players))"

section \<open>Offline::partition, quickSelect and quickSelectRank\<close>

text \<open>
  The indices of \<^verbatim>\<open>partition\<close> and \<^verbatim>\<open>quickSelect\<close> are C++ \<^verbatim>\<open>int\<close>s (\<open>i\<close> starts at
  \<open>low - 1\<close>, which is \<open>-1\<close> in the first call); vectors longer than \<^verbatim>\<open>INT_MAX\<close> are outside
  the model. \<open>partition_loop\<close> is the \<^verbatim>\<open>for\<close> loop of \<^verbatim>\<open>partition\<close>, whose name is taken by
  a list function of HOL.
\<close>

function partition_loop ::
  "Player list \<Rightarrow> Player \<Rightarrow> int \<Rightarrow> int \<Rightarrow> int \<Rightarrow> Player list \<times> int" where
  "partition_loop players pivot high i it =
     (if it \<le> high - 1 then
        (if level_m (players ! nat it) \<ge> level_m pivot
         then partition_loop (swap players (nat (i + 1)) (nat it)) pivot high (i + 1) (it + 1)
         else partition_loop players pivot high i (it + 1))
      else (players, i))"
  by pat_completeness auto
termination
  by (relation "measure (\<lambda>(players, pivot, high, i, it). nat (high - it))") auto

declare partition_loop.simps [simp del]

definition partition_players :: "Player list \<Rightarrow> int \<Rightarrow> int \<Rightarrow> Player list \<times> int" where
  "partition_players players low high =
     (let pivot = players ! nat high;
          (players, i) = partition_loop players pivot high (low - 1) low;
          players = swap players (nat (i + 1)) (nat high)
      in (players, i + 1))"

lemma partition_loop_keep:
  "it \<le> high - 1 \<Longrightarrow> level_m pivot \<le> level_m (players ! nat it) \<Longrightarrow>
   partition_loop players pivot high i it =
     partition_loop (swap players (nat (i + 1)) (nat it)) pivot high (i + 1) (it + 1)"
  by (subst partition_loop.simps) simp

lemma partition_loop_skip:
  "it \<le> high - 1 \<Longrightarrow> \<not> level_m pivot \<le> level_m (players ! nat it) \<Longrightarrow>
   partition_loop players pivot high i it = partition_loop players pivot high i (it + 1)"
  by (subst partition_loop.simps) simp

lemma partition_loop_stop:
  "\<not> it \<le> high - 1 \<Longrightarrow> partition_loop players pivot high i it = (players, i)"
  by (subst partition_loop.simps) simp

lemma partition_loop_bounds:
  "i < it \<Longrightarrow> it \<le> high \<Longrightarrow>
   i \<le> snd (partition_loop players pivot high i it) \<and>
   snd (partition_loop players pivot high i it) \<le> i + (high - it)"
proof (induction players pivot high i it rule: partition_loop.induct)
  case (1 players pivot high i it)
  show ?case
  proof (cases "it \<le> high - 1")
    case False
    with "1.prems" show ?thesis by (simp add: partition_loop_stop)
  next
    case True
    show ?thesis
    proof (cases "level_m pivot \<le> level_m (players ! nat it)")
      case keep: True
      from "1.IH"(1)[OF True keep] "1.prems" True
      show ?thesis by (simp add: partition_loop_keep[OF True keep])
    next
      case skip: False
      from "1.IH"(2)[OF True skip] "1.prems" True
      show ?thesis by (simp add: partition_loop_skip[OF True skip])
    qed
  qed
qed

lemma partition_players_bounds:
  assumes "low \<le> high"
  shows "low \<le> snd (partition_players players low high) \<and>
         snd (partition_players players low high) \<le> high"
proof -
  obtain ps i where r: "partition_loop players (players ! nat high) high (low - 1) low = (ps, i)"
    by (cases "partition_loop players (players ! nat high) high (low - 1) low")
  have "low - 1 \<le> snd (partition_loop players (players ! nat high) high (low - 1) low) \<and>
        snd (partition_loop players (players ! nat high) high (low - 1) low)
          \<le> low - 1 + (high - low)"
    using assms by (intro partition_loop_bounds) simp_all
  with r have "low - 1 \<le> i" "i \<le> high - 1" by simp_all
  with r show ?thesis by (simp add: partition_players_def)
qed

function quickSelect :: "Player list \<Rightarrow> int \<Rightarrow> int \<Rightarrow> int \<Rightarrow> Player list" where
  "quickSelect players left right cutoffIndex =
     (if left \<le> right then
        (case partition_players players left right of
           (players', pivotIndex) \<Rightarrow>
             if pivotIndex = cutoffIndex then players'
             else if pivotIndex > cutoffIndex
               then quickSelect players' left (pivotIndex - 1) cutoffIndex
               else quickSelect players' (pivotIndex + 1) right cutoffIndex)
      else players)"
  by pat_completeness auto
termination quickSelect
proof (relation "measure (\<lambda>(players, left, right, cutoffIndex). nat (right - left + 1))",
    goal_cases)
  case 1
  show ?case by simp
next
  case (2 players left right cutoffIndex x y)
  from 2(2) have y: "y = snd (partition_players players left right)" by (metis snd_conv)
  from partition_players_bounds[OF 2(1), of players] have "left \<le> y" "y \<le> right"
    unfolding y by simp_all
  then show ?case by simp
next
  case (3 players left right cutoffIndex x y)
  from 3(2) have y: "y = snd (partition_players players left right)" by (metis snd_conv)
  from partition_players_bounds[OF 3(1), of players] have "left \<le> y" "y \<le> right"
    unfolding y by simp_all
  then show ?case by simp
qed

declare quickSelect.simps [simp del]

text \<open>
  \<^verbatim>\<open>players.size() - 1\<close> is computed in \<^verbatim>\<open>size_t\<close> and passed as an \<^verbatim>\<open>int\<close>: for the empty
  vector it wraps to \<open>2 ^ 64 - 1\<close>, which converts to \<open>-1\<close>. \<^verbatim>\<open>std::sort\<close> on the tail of the
  vector uses \<^verbatim>\<open>Player::operator<\<close>; it is modelled by \<open>sort_key level_m\<close> (the standard
  leaves the order of equal elements open).
\<close>

definition quickSelectRank :: "Player list \<Rightarrow> RankingResult \<times> Player list" where
  "quickSelectRank players =
     (let tenPer = length players div 10;
          cutoffIndex = length players - tenPer;
          players = quickSelect players 0 (int (length players) - 1) (int cutoffIndex);
          players = take cutoffIndex players @ sort_key level_m (drop cutoffIndex players);
          topPlayers = drop cutoffIndex players
      in (\<lparr>top_m = topPlayers, cutoffs_m = Map.empty\<rparr>, players))"

section \<open>Online::replaceMin and rankIncoming\<close>

text \<open>
  \<open>replaceMin_loop\<close> is the \<^verbatim>\<open>while (true)\<close> loop of \<^verbatim>\<open>replaceMin\<close> on the range
  \<^verbatim>\<open>[first, last)\<close>, which \<^verbatim>\<open>rankIncoming\<close> always takes to be the whole buffer.
\<close>

function replaceMin_loop :: "Player list \<Rightarrow> nat \<Rightarrow> Player list" where
  "replaceMin_loop xs currentPlayer =
     (let heapSize = length xs;
          left = 2 * currentPlayer + 1;
          right = 2 * currentPlayer + 2;
          smallest = currentPlayer;
          smallest = (if left < heapSize \<and> level_m (xs ! left) < level_m (xs ! smallest)
                      then left else smallest);
          smallest = (if right < heapSize \<and> level_m (xs ! right) < level_m (xs ! smallest)
                      then right else smallest)
      in if smallest = currentPlayer then xs
         else replaceMin_loop (swap xs currentPlayer smallest) smallest)"
  by pat_completeness auto
termination
  by (relation "measure (\<lambda>(xs, cur). length xs - cur)")
     (auto simp: Let_def swap_def split: if_splits)

declare replaceMin_loop.simps [simp del]

definition replaceMin :: "Player list \<Rightarrow> Player \<Rightarrow> Player list" where
  "replaceMin xs target = replaceMin_loop (xs[0 := target]) 0"

definition front :: "Player list \<Rightarrow> error + Player" where
  "front xs = (case xs of [] \<Rightarrow> Inl EmptyFront | x # _ \<Rightarrow> Inr x)"

text \<open>
  The comparator \<^verbatim>\<open>[](const Player& a, const Player& b) { return a.level_ > b.level_; }\<close>
  passed to \<^verbatim>\<open>std::make_heap\<close>.
\<close>

definition min_heap_cmp :: "Player \<Rightarrow> Player \<Rightarrow> bool" where
  "min_heap_cmp a b = (level_m a > level_m b)"

text \<open>
  The local variables of \<^verbatim>\<open>rankIncoming\<close> that live across iterations:
  \<^verbatim>\<open>top_players\<close>, \<^verbatim>\<open>cutoffs\<close> and \<^verbatim>\<open>players_processed\<close>.
\<close>

type_synonym loop_state = "Player list \<times> (nat \<rightharpoonup> nat) \<times> nat"

text \<open>One iteration of the \<^verbatim>\<open>while\<close> loop, after \<^verbatim>\<open>nextPlayer\<close> has returned \<open>p\<close>.\<close>

definition rankIncoming_body :: "nat \<Rightarrow> Player \<Rightarrow> loop_state \<Rightarrow> error + loop_state" where
  "rankIncoming_body reporting_interval p st =
     (case st of (top_players, cutoffs, players_processed) \<Rightarrow>
        let players_processed = players_processed + 1 in
        (case (if length top_players < reporting_interval then
                 (let top_players = top_players @ [p]
                  in Inr (if length top_players = reporting_interval
                          then make_heap min_heap_cmp top_players
                          else top_players))
               else (case front top_players of
                       Inl e \<Rightarrow> Inl e
                     | Inr f \<Rightarrow> Inr (if level_m p > level_m f then replaceMin top_players p
                                     else top_players)))
         of Inl e \<Rightarrow> Inl e
          | Inr top_players \<Rightarrow>
              if reporting_interval = 0 then Inl DivisionByZero
              else if players_processed mod reporting_interval = 0 then
                (case front top_players of
                   Inl e \<Rightarrow> Inl e
                 | Inr f \<Rightarrow>
                     Inr (top_players, cutoffs(players_processed \<mapsto> level_m f),
                          players_processed))
              else Inr (top_players, cutoffs, players_processed)))"

text \<open>
  The \<^verbatim>\<open>while (stream.remaining() > 0)\<close> loop. A failure ends it, as the exception (or the
  undefined operation) would; the stream is returned as the loop left it.
\<close>

function rankIncoming_loop ::
  "nat \<Rightarrow> VectorPlayerStream \<Rightarrow> loop_state \<Rightarrow> (error + loop_state) \<times> VectorPlayerStream" where
  "rankIncoming_loop reporting_interval stream st =
     (if remaining stream > 0 then
        (case nextPlayer stream of
           Inl e \<Rightarrow> (Inl e, stream)
         | Inr (p, stream') \<Rightarrow>
             (case rankIncoming_body reporting_interval p st of
                Inl e \<Rightarrow> (Inl e, stream')
              | Inr st' \<Rightarrow> rankIncoming_loop reporting_interval stream' st'))
      else (Inr st, stream))"
  by pat_completeness auto
termination
  by (relation "measure (\<lambda>(k, s, st). length (players_m s) - currentIndex_m s)")
     (auto simp: nextPlayer_def split: if_splits)

declare rankIncoming_loop.simps [simp del]

text \<open>
  \<^verbatim>\<open>std::sort\<close> with the comparator \<^verbatim>\<open>a.level_ < b.level_\<close> is modelled by
  \<open>sort_key level_m\<close>.
\<close>

definition rankIncoming ::
  "VectorPlayerStream \<Rightarrow> nat \<Rightarrow> (error + RankingResult) \<times> VectorPlayerStream" where
  "rankIncoming stream reporting_interval =
     (case rankIncoming_loop reporting_interval stream ([], Map.empty, 0) of
        (Inl e, stream') \<Rightarrow> (Inl e, stream')
      | (Inr (top_players, cutoffs, players_processed), stream') \<Rightarrow>
          (case (if top_players \<noteq> [] then
                   (case front top_players of
                      Inl e \<Rightarrow> Inl e
                    | Inr f \<Rightarrow> Inr (cutoffs(players_processed \<mapsto> level_m f)))
                 else Inr cutoffs)
           of Inl e \<Rightarrow> (Inl e, stream')
            | Inr cutoffs \<Rightarrow>
                (Inr \<lparr>top_m = sort_key level_m top_players, cutoffs_m = cutoffs\<rparr>, stream')))"

section \<open>Test data\<close>

text \<open>Players with the given levels and empty names.\<close>

definition with_levels :: "nat list \<Rightarrow> Player list" where
  "with_levels ls = map (\<lambda>l. \<lparr>name_m = [], level_m = l\<rparr>) ls"

section \<open>Auxiliary definitions for the statements and proofs\<close>

text \<open>
  What the standard library requires of a comparator, in the form the heap proofs use:
  it is asymmetric, and "not less" is transitive.
\<close>
definition weak_order :: "('a \<Rightarrow> 'a \<Rightarrow> bool) \<Rightarrow> bool" where
  "weak_order cmp = ((\<forall>a b. cmp a b \<longrightarrow> \<not> cmp b a) \<and>
                     (\<forall>a b c. \<not> cmp a b \<longrightarrow> \<not> cmp b c \<longrightarrow> \<not> cmp a c))"

text \<open>
  The heap property on the first \<open>n\<close> positions, for the nodes from \<open>l\<close> on: no parent
  \<open>(c - 1) div 2 \<ge> l\<close> compares less than its child \<open>c\<close>. With \<open>l = 0\<close> this is what the
  standard calls a heap with respect to \<open>cmp\<close>.
\<close>
definition heap_from :: "('a \<Rightarrow> 'a \<Rightarrow> bool) \<Rightarrow> 'a list \<Rightarrow> nat \<Rightarrow> nat \<Rightarrow> bool" where
  "heap_from cmp xs n l =
     (\<forall>c<n. 0 < c \<and> l \<le> (c - 1) div 2 \<longrightarrow> \<not> cmp (xs ! ((c - 1) div 2)) (xs ! c))"

text \<open>The position \<open>sift_down\<close> picks among a node and its two children.\<close>
definition sift_best :: "('a \<Rightarrow> 'a \<Rightarrow> bool) \<Rightarrow> 'a list \<Rightarrow> nat \<Rightarrow> nat \<Rightarrow> nat" where
  "sift_best cmp xs n cur =
     (let left = 2 * cur + 1;
          right = 2 * cur + 2;
          best = cur;
          best = (if left < n \<and> cmp (xs ! best) (xs ! left) then left else best);
          best = (if right < n \<and> cmp (xs ! best) (xs ! right) then right else best)
      in best)"

text \<open>The vector after the first \<open>k\<close> iterations of the \<^verbatim>\<open>pop_heap\<close> loop of \<^verbatim>\<open>heapRank\<close>.\<close>
definition pops :: "nat \<Rightarrow> Player list \<Rightarrow> Player list" where
  "pops k ys = fold (\<lambda>i ps. pop_heap player_less ps (length ps - i)) [0..<k] ys"

text \<open>
  The specification's "\<open>k\<close> greatest levels" of a list of levels, as a multiset written in
  ascending order: the last \<open>k\<close> entries of the sorted list (all of it when it has at most
  \<open>k\<close> entries).
\<close>
definition top_levels :: "nat \<Rightarrow> nat list \<Rightarrow> nat list" where
  "top_levels k ls = drop (length ls - k) (sort ls)"

text \<open>
  The loop of \<open>rankIncoming\<close> run over the list of players the stream still holds: the
  iterations in order, stopping at the first failure.
\<close>
fun process_all :: "nat \<Rightarrow> Player list \<Rightarrow> loop_state \<Rightarrow> error + loop_state" where
  "process_all k [] st = Inr st"
| "process_all k (p # ps) st =
     (case rankIncoming_body k p st of Inl e \<Rightarrow> Inl e | Inr st' \<Rightarrow> process_all k ps st')"

text \<open>
  What one iteration does to the buffer \<^verbatim>\<open>top_players\<close> when nothing fails: append while
  it holds fewer than \<open>k\<close> players (and build the heap when it reaches \<open>k\<close>), else replace
  the root when the new player's level exceeds the root's.
\<close>
definition next_buffer :: "nat \<Rightarrow> Player \<Rightarrow> Player list \<Rightarrow> Player list" where
  "next_buffer k p buf =
     (if length buf < k then
        (if length (buf @ [p]) = k then make_heap min_heap_cmp (buf @ [p]) else buf @ [p])
      else if level_m p > level_m (hd buf) then replaceMin buf p else buf)"

text \<open>One iteration on the whole loop state, when nothing fails.\<close>
definition next_state :: "nat \<Rightarrow> loop_state \<Rightarrow> Player \<Rightarrow> loop_state" where
  "next_state k st p =
     (case st of (buf, cutoffs, n) \<Rightarrow>
        (next_buffer k p buf,
         if (n + 1) mod k = 0 then cutoffs(n + 1 \<mapsto> level_m (hd (next_buffer k p buf)))
         else cutoffs,
         n + 1))"

text \<open>The loop state after the whole stream, for a capacity of at least one.\<close>
definition final_state :: "nat \<Rightarrow> Player list \<Rightarrow> loop_state" where
  "final_state k ps = foldl (next_state k) ([], Map.empty, 0) ps"

text \<open>
  The invariant of the buffer after the players \<open>seen\<close>: it holds \<open>min k (length seen)\<close>
  players; below the capacity it is the players seen, in order of arrival; from the capacity
  on it is a min-heap by level; and the players seen split into the buffer and a rest
  \<open>rest\<close>, none of which has a greater level than a player in the buffer.
\<close>
definition buffer_inv :: "nat \<Rightarrow> Player list \<Rightarrow> Player list \<Rightarrow> Player list \<Rightarrow> bool" where
  "buffer_inv k seen buf rest =
     (length buf = min k (length seen) \<and>
      (length seen < k \<longrightarrow> buf = seen) \<and>
      (k \<le> length seen \<longrightarrow> heap_from min_heap_cmp buf (length buf) 0) \<and>
      mset seen = mset rest + mset buf \<and>
      (\<forall>a\<in>set rest. \<forall>b\<in>set buf. level_m a \<le> level_m b))"

text \<open>
  The admission bar after the players \<open>ps\<close>: the level at the front of the buffer.
\<close>
definition bar_after :: "nat \<Rightarrow> Player list \<Rightarrow> nat" where
  "bar_after k ps = level_m (hd (fst (final_state k ps)))"

text \<open>
  No player from position \<open>m\<close> on has a greater level than a player before position \<open>m\<close>.
\<close>
definition split_at :: "Player list \<Rightarrow> nat \<Rightarrow> bool" where
  "split_at xs m = (\<forall>i j. i < m \<and> m \<le> j \<and> j < length xs \<longrightarrow> level_m (xs ! j) \<le> level_m (xs ! i))"

section \<open>Sift-down establishes the heap property\<close>

lemma weak_order_player_less: "weak_order player_less"
  by (auto simp: weak_order_def player_less_def)

lemma weak_order_min_heap_cmp: "weak_order min_heap_cmp"
  by (auto simp: weak_order_def min_heap_cmp_def)

lemma weak_orderD1: "weak_order cmp \<Longrightarrow> cmp a b \<Longrightarrow> \<not> cmp b a"
  unfolding weak_order_def by blast

lemma weak_orderD2: "weak_order cmp \<Longrightarrow> \<not> cmp a b \<Longrightarrow> \<not> cmp b c \<Longrightarrow> \<not> cmp a c"
  unfolding weak_order_def by blast

lemma parent_children: "0 < c \<Longrightarrow> (c - 1) div 2 = i \<Longrightarrow> c = 2 * i + 1 \<or> c = 2 * i + (2::nat)"
  by arith

lemma length_swap [simp]: "length (swap xs i j) = length xs"
  by (simp add: swap_def)

lemma mset_swap_list [simp]: "i < length xs \<Longrightarrow> j < length xs \<Longrightarrow> mset (swap xs i j) = mset xs"
  by (simp add: swap_def mset_swap)

lemma nth_swap:
  "i < length xs \<Longrightarrow> j < length xs \<Longrightarrow>
   swap xs i j ! k = (if k = j then xs ! i else if k = i then xs ! j else xs ! k)"
  by (auto simp: swap_def nth_list_update)

lemma sift_down_unfold:
  "sift_down cmp xs n cur =
     (if sift_best cmp xs n cur = cur then xs
      else sift_down cmp (swap xs cur (sift_best cmp xs n cur)) n (sift_best cmp xs n cur))"
  by (subst sift_down.simps) (simp add: sift_best_def Let_def)

lemma sift_best_cases:
  "sift_best cmp xs n cur = cur \<or>
   (sift_best cmp xs n cur = 2 * cur + 1 \<and> 2 * cur + 1 < n) \<or>
   (sift_best cmp xs n cur = 2 * cur + 2 \<and> 2 * cur + 2 < n)"
  by (simp add: sift_best_def Let_def)

lemma best_of_three:
  assumes "weak_order cmp"
    and m: "m = (if L \<and> cmp a b then b else a)"
    and r: "r = (if R \<and> cmp m c then c else m)"
  shows "\<not> cmp r a \<and> (L \<longrightarrow> \<not> cmp r b) \<and> (R \<longrightarrow> \<not> cmp r c)"
proof -
  have irrefl: "\<not> cmp x x" for x using assms(1) unfolding weak_order_def by blast
  have asym: "cmp x y \<Longrightarrow> \<not> cmp y x" for x y using assms(1) unfolding weak_order_def by blast
  have trans: "\<not> cmp x y \<Longrightarrow> \<not> cmp y z \<Longrightarrow> \<not> cmp x z" for x y z
    using assms(1) unfolding weak_order_def by blast
  have ma: "\<not> cmp m a \<and> (L \<longrightarrow> \<not> cmp m b)"
  proof (cases "L \<and> cmp a b")
    case True
    then have "m = b" by (simp add: m)
    with True asym irrefl show ?thesis by blast
  next
    case False
    then have "m = a" by (auto simp: m)
    with False irrefl show ?thesis by blast
  qed
  have rm: "\<not> cmp r m \<and> (R \<longrightarrow> \<not> cmp r c)"
  proof (cases "R \<and> cmp m c")
    case True
    then have "r = c" by (simp add: r)
    with True asym irrefl show ?thesis by blast
  next
    case False
    then have "r = m" by (auto simp: r)
    with False irrefl show ?thesis by blast
  qed
  from trans ma rm show ?thesis by blast
qed

lemma sift_best_dominates:
  assumes "weak_order cmp"
  shows "\<not> cmp (xs ! sift_best cmp xs n cur) (xs ! cur) \<and>
         (2 * cur + 1 < n \<longrightarrow> \<not> cmp (xs ! sift_best cmp xs n cur) (xs ! (2 * cur + 1))) \<and>
         (2 * cur + 2 < n \<longrightarrow> \<not> cmp (xs ! sift_best cmp xs n cur) (xs ! (2 * cur + 2)))"
proof -
  define m where "m = (if 2 * cur + 1 < n \<and> cmp (xs ! cur) (xs ! (2 * cur + 1)) then 2 * cur + 1 else cur)"
  have b: "sift_best cmp xs n cur = (if 2 * cur + 2 < n \<and> cmp (xs ! m) (xs ! (2 * cur + 2)) then 2 * cur + 2 else m)"
    by (simp add: sift_best_def Let_def m_def)
  have 1: "xs ! m = (if 2 * cur + 1 < n \<and> cmp (xs ! cur) (xs ! (2 * cur + 1)) then xs ! (2 * cur + 1) else xs ! cur)"
    unfolding m_def by (rule if_distrib)
  have 2: "xs ! sift_best cmp xs n cur =
     (if 2 * cur + 2 < n \<and> cmp (xs ! m) (xs ! (2 * cur + 2)) then xs ! (2 * cur + 2) else xs ! m)"
    unfolding b by (rule if_distrib)
  show ?thesis by (rule best_of_three[OF assms 1 2])
qed

lemma sift_best_ge: "cur \<le> sift_best cmp xs n cur"
  using sift_best_cases[of cmp xs n cur] by auto

lemma sift_best_lt: "sift_best cmp xs n cur \<noteq> cur \<Longrightarrow> sift_best cmp xs n cur < n"
  using sift_best_cases[of cmp xs n cur] by auto

lemma sift_best_parent:
  "sift_best cmp xs n cur \<noteq> cur \<Longrightarrow> (sift_best cmp xs n cur - 1) div 2 = cur"
  using sift_best_cases[of cmp xs n cur] by auto

lemma sift_down_length [simp]: "length (sift_down cmp xs n cur) = length xs"
proof (induction "n - cur" arbitrary: xs cur rule: less_induct)
  case less
  show ?case
  proof (cases "sift_best cmp xs n cur = cur")
    case True
    then show ?thesis by (subst sift_down_unfold) simp
  next
    case False
    from False sift_best_lt[OF False] sift_best_ge[of cur cmp xs n]
    have "n - sift_best cmp xs n cur < n - cur" by simp
    from less[OF this] False show ?thesis by (subst sift_down_unfold) simp
  qed
qed

lemma sift_down_mset: "n \<le> length xs \<Longrightarrow> mset (sift_down cmp xs n cur) = mset xs"
proof (induction "n - cur" arbitrary: xs cur rule: less_induct)
  case less
  show ?case
  proof (cases "sift_best cmp xs n cur = cur")
    case True
    then show ?thesis by (subst sift_down_unfold) simp
  next
    case False
    from False sift_best_lt[OF False] sift_best_ge[of cur cmp xs n]
    have lt: "n - sift_best cmp xs n cur < n - cur" and b: "sift_best cmp xs n cur < n" and c: "cur < n"
      by simp_all
    have "mset (sift_down cmp (swap xs cur (sift_best cmp xs n cur)) n (sift_best cmp xs n cur))
        = mset (swap xs cur (sift_best cmp xs n cur))"
      using less(1)[OF lt] less(2) by simp
    also have "\<dots> = mset xs" using b c less(2) by simp
    finally show ?thesis using False by (subst sift_down_unfold) simp
  qed
qed

lemma sift_down_nth_outside:
  "n \<le> length xs \<Longrightarrow> k < cur \<or> n \<le> k \<Longrightarrow> sift_down cmp xs n cur ! k = xs ! k"
proof (induction "n - cur" arbitrary: xs cur rule: less_induct)
  case less
  show ?case
  proof (cases "sift_best cmp xs n cur = cur")
    case True
    then show ?thesis by (subst sift_down_unfold) simp
  next
    case False
    from False sift_best_lt[OF False] sift_best_ge[of cur cmp xs n]
    have lt: "n - sift_best cmp xs n cur < n - cur" and b: "sift_best cmp xs n cur < n"
      and c: "cur < sift_best cmp xs n cur"
      by simp_all
    have "sift_down cmp (swap xs cur (sift_best cmp xs n cur)) n (sift_best cmp xs n cur) ! k
        = swap xs cur (sift_best cmp xs n cur) ! k"
      using less(1)[OF lt, of "swap xs cur (sift_best cmp xs n cur)"] less(2,3) c by auto
    also have "\<dots> = xs ! k" using b c less(2,3) by (auto simp: nth_swap)
    finally show ?thesis using False by (subst sift_down_unfold) simp
  qed
qed

lemma sift_down_heap:
  assumes wo: "weak_order cmp"
  shows "n \<le> length xs \<Longrightarrow>
    (\<forall>c<n. 0 < c \<and> l \<le> (c - 1) div 2 \<and> (c - 1) div 2 \<noteq> cur
        \<longrightarrow> \<not> cmp (xs ! ((c - 1) div 2)) (xs ! c)) \<Longrightarrow>
    (\<forall>c<n. 0 < c \<and> (c - 1) div 2 = cur \<and> 0 < cur \<and> l \<le> (cur - 1) div 2
        \<longrightarrow> \<not> cmp (xs ! ((cur - 1) div 2)) (xs ! c)) \<Longrightarrow>
    heap_from cmp (sift_down cmp xs n cur) n l"
proof (induction "n - cur" arbitrary: xs cur rule: less_induct)
  case less
  note len = less.prems(1) and inv = less.prems(2) and gp = less.prems(3)
  define b where "b = sift_best cmp xs n cur"
  note dom = sift_best_dominates[OF wo, of xs n cur, folded b_def]
  show ?case
  proof (cases "b = cur")
    case True
    have "heap_from cmp xs n l"
      unfolding heap_from_def
    proof (intro allI impI)
      fix c assume c: "c < n" "0 < c \<and> l \<le> (c - 1) div 2"
      show "\<not> cmp (xs ! ((c - 1) div 2)) (xs ! c)"
      proof (cases "(c - 1) div 2 = cur")
        case False
        with inv c show ?thesis by blast
      next
        case p: True
        from c have "0 < c" by simp
        from parent_children[OF this p] have "c = 2 * cur + 1 \<or> c = 2 * cur + 2" .
        with dom c(1) True p show ?thesis by auto
      qed
    qed
    with True show ?thesis unfolding b_def by (subst sift_down_unfold) simp
  next
    case False
    then have ne: "sift_best cmp xs n cur \<noteq> cur" by (simp add: b_def)
    have bn: "b < n" and cb: "cur < b" and pb: "(b - 1) div 2 = cur"
      using sift_best_lt[OF ne] sift_best_ge[of cur cmp xs n] sift_best_parent[OF ne] False
      by (simp_all add: b_def)
    have b0: "0 < b" using cb by simp
    have lt: "n - b < n - cur" using bn cb by simp
    let ?ys = "swap xs cur b"
    have nth: "?ys ! k = (if k = b then xs ! cur else if k = cur then xs ! b else xs ! k)" for k
      using bn cb len by (simp add: nth_swap)
    have inv': "\<forall>c<n. 0 < c \<and> l \<le> (c - 1) div 2 \<and> (c - 1) div 2 \<noteq> b
        \<longrightarrow> \<not> cmp (?ys ! ((c - 1) div 2)) (?ys ! c)"
    proof (intro allI impI)
      fix c assume c: "c < n" "0 < c \<and> l \<le> (c - 1) div 2 \<and> (c - 1) div 2 \<noteq> b"
      show "\<not> cmp (?ys ! ((c - 1) div 2)) (?ys ! c)"
      proof (cases "(c - 1) div 2 = cur")
        case p: True
        from c have "0 < c" by simp
        from parent_children[OF this p] have ch: "c = 2 * cur + 1 \<or> c = 2 * cur + 2" .
        then have "c \<noteq> cur" by auto
        show ?thesis
        proof (cases "c = b")
          case True
          with p cb dom show ?thesis by (simp add: nth)
        next
          case cnb: False
          have "\<not> cmp (xs ! b) (xs ! c)" using ch dom c(1) by auto
          with p cb cnb \<open>c \<noteq> cur\<close> show ?thesis by (simp add: nth)
        qed
      next
        case p: False
        have cnb: "c \<noteq> b" using p pb by auto
        show ?thesis
        proof (cases "c = cur")
          case True
          have "\<not> cmp (xs ! ((cur - 1) div 2)) (xs ! b)"
            using gp bn b0 pb c True by blast
          moreover have "(cur - 1) div 2 \<noteq> cur" using c True by auto
          ultimately show ?thesis using True c cb by (simp add: nth)
        next
          case False
          have "\<not> cmp (xs ! ((c - 1) div 2)) (xs ! c)" using inv c p by blast
          with False cnb p c show ?thesis by (simp add: nth)
        qed
      qed
    qed
    have gp': "\<forall>c<n. 0 < c \<and> (c - 1) div 2 = b \<and> 0 < b \<and> l \<le> (b - 1) div 2
        \<longrightarrow> \<not> cmp (?ys ! ((b - 1) div 2)) (?ys ! c)"
    proof (intro allI impI)
      fix c assume c: "c < n" "0 < c \<and> (c - 1) div 2 = b \<and> 0 < b \<and> l \<le> (b - 1) div 2"
      then have "l \<le> (c - 1) div 2" "(c - 1) div 2 \<noteq> cur" using pb cb by auto
      with inv c have "\<not> cmp (xs ! b) (xs ! c)" by auto
      moreover have "c \<noteq> b" "c \<noteq> cur" using c cb by auto
      ultimately show "\<not> cmp (?ys ! ((b - 1) div 2)) (?ys ! c)"
        using pb cb by (simp add: nth)
    qed
    have "heap_from cmp (sift_down cmp ?ys n b) n l"
      using less.hyps[OF lt _ inv' gp'] len by simp
    with False show ?thesis unfolding b_def by (subst sift_down_unfold) simp
  qed
qed

lemma heap_root:
  assumes wo: "weak_order cmp" and h: "heap_from cmp xs n 0"
  shows "i < n \<Longrightarrow> \<not> cmp (xs ! 0) (xs ! i)"
proof (induction i rule: less_induct)
  case (less i)
  show ?case
  proof (cases "i = 0")
    case True
    with wo weak_orderD1 show ?thesis by fastforce
  next
    case False
    then have p: "(i - 1) div 2 < i" by arith
    with less have 1: "\<not> cmp (xs ! 0) (xs ! ((i - 1) div 2))" by simp
    from h less.prems False have 2: "\<not> cmp (xs ! ((i - 1) div 2)) (xs ! i)"
      unfolding heap_from_def by simp
    from weak_orderD2[OF wo 1 2] show ?thesis .
  qed
qed

lemma heap_from_half: "heap_from cmp xs n (n div 2)"
  unfolding heap_from_def by (intro allI impI) arith

lemma make_heap_fold:
  assumes wo: "weak_order cmp"
  shows "heap_from cmp xs (length xs) m \<Longrightarrow>
    heap_from cmp (fold (\<lambda>i ys. sift_down cmp ys (length ys) i) (rev [0..<m]) xs) (length xs) 0 \<and>
    length (fold (\<lambda>i ys. sift_down cmp ys (length ys) i) (rev [0..<m]) xs) = length xs \<and>
    mset (fold (\<lambda>i ys. sift_down cmp ys (length ys) i) (rev [0..<m]) xs) = mset xs"
proof (induction m arbitrary: xs)
  case 0
  then show ?case by simp
next
  case (Suc m)
  let ?ys = "sift_down cmp xs (length xs) m"
  have inv: "\<forall>c<length xs. 0 < c \<and> m \<le> (c - 1) div 2 \<and> (c - 1) div 2 \<noteq> m
        \<longrightarrow> \<not> cmp (xs ! ((c - 1) div 2)) (xs ! c)"
  proof (intro allI impI)
    fix c assume c: "c < length xs" "0 < c \<and> m \<le> (c - 1) div 2 \<and> (c - 1) div 2 \<noteq> m"
    then have "Suc m \<le> (c - 1) div 2" by simp
    with Suc.prems c show "\<not> cmp (xs ! ((c - 1) div 2)) (xs ! c)"
      unfolding heap_from_def by blast
  qed
  have gp: "\<forall>c<length xs. 0 < c \<and> (c - 1) div 2 = m \<and> 0 < m \<and> m \<le> (m - 1) div 2
        \<longrightarrow> \<not> cmp (xs ! ((m - 1) div 2)) (xs ! c)"
    by (intro allI impI) arith
  have h: "heap_from cmp ?ys (length ?ys) m"
    using sift_down_heap[OF wo _ inv gp] by simp
  from Suc.IH[OF h] show ?case by (simp add: sift_down_mset)
qed

lemma make_heap_heap: "weak_order cmp \<Longrightarrow> heap_from cmp (make_heap cmp xs) (length xs) 0"
  unfolding make_heap_def using make_heap_fold[OF _ heap_from_half] by blast

lemma length_make_heap [simp]: "length (make_heap cmp xs) = length xs"
proof -
  have "length (fold (\<lambda>i ys. sift_down cmp ys (length ys) i) is xs) = length xs" for "is"
    by (induction "is" arbitrary: xs) simp_all
  then show ?thesis by (simp add: make_heap_def)
qed

lemma mset_make_heap [simp]: "mset (make_heap cmp xs) = mset xs"
proof -
  have "mset (fold (\<lambda>i ys. sift_down cmp ys (length ys) i) is xs) = mset xs" for "is"
    by (induction "is" arbitrary: xs) (simp_all add: sift_down_mset)
  then show ?thesis by (simp add: make_heap_def)
qed

section \<open>make_heap and pop_heap\<close>

lemma sift_down_drop: "n \<le> length xs \<Longrightarrow> drop n (sift_down cmp xs n cur) = drop n xs"
proof (rule nth_equalityI)
  show "length (drop n (sift_down cmp xs n cur)) = length (drop n xs)" by simp
next
  fix i assume "n \<le> length xs" "i < length (drop n (sift_down cmp xs n cur))"
  then show "drop n (sift_down cmp xs n cur) ! i = drop n xs ! i"
    by (simp add: sift_down_nth_outside)
qed

lemma mset_take_eq:
  assumes "mset ys = mset xs" "drop n ys = drop n xs"
  shows "mset (take n ys) = mset (take n xs)"
proof -
  have "mset (take n ys) + mset (drop n ys) = mset (take n xs) + mset (drop n xs)"
    using assms(1) by (simp flip: mset_append)
  with assms(2) show ?thesis by simp
qed

lemma pop_heap_props:
  assumes wo: "weak_order cmp" and h: "heap_from cmp xs n 0" and n: "1 \<le> n" "n \<le> length xs"
  shows "length (pop_heap cmp xs n) = length xs"
    and "mset (pop_heap cmp xs n) = mset xs"
    and "drop (n - 1) (pop_heap cmp xs n) = xs ! 0 # drop n xs"
    and "mset (take (n - 1) (pop_heap cmp xs n)) + {#xs ! 0#} = mset (take n xs)"
    and "heap_from cmp (pop_heap cmp xs n) (n - 1) 0"
proof -
  let ?zs = "swap xs 0 (n - 1)"
  let ?ys = "pop_heap cmp xs n"
  have ys: "?ys = sift_down cmp ?zs (n - 1) 0"
  proof (cases "n \<le> 1")
    case True
    with n have "n = 1" by simp
    then show ?thesis
      by (simp add: pop_heap_def swap_def sift_down_unfold[of cmp _ 0 0] sift_best_def)
  next
    case False
    then show ?thesis by (simp add: pop_heap_def)
  qed
  have bounds: "0 < length xs" "n - 1 < length xs" using n by auto
  have nz: "?zs ! k = (if k = n - 1 then xs ! 0 else if k = 0 then xs ! (n - 1) else xs ! k)" for k
    by (rule nth_swap[OF bounds])
  show len: "length ?ys = length xs" by (simp add: ys)
  have mz: "mset ?zs = mset xs" by (rule mset_swap_list[OF bounds])
  have "mset (sift_down cmp ?zs (n - 1) 0) = mset ?zs" using n by (intro sift_down_mset) simp
  with mz show ms: "mset ?ys = mset xs" unfolding ys by simp
  have sn: "Suc (n - 1) = n" using n by simp
  have d1: "drop (n - 1) ?ys = drop (n - 1) ?zs" using n by (simp add: ys sift_down_drop)
  have d2: "drop (n - 1) ?zs = ?zs ! (n - 1) # drop (Suc (n - 1)) ?zs"
    using bounds by (intro Cons_nth_drop_Suc[symmetric]) simp
  have d3: "drop n ?zs = drop n xs" using n by (simp add: swap_def drop_update_cancel)
  have z: "?zs ! (n - 1) = xs ! 0" using nz[of "n - 1"] by simp
  show dr: "drop (n - 1) ?ys = xs ! 0 # drop n xs"
    unfolding d1 d2 sn d3 z by (rule refl)
  have "drop (Suc (n - 1)) ?ys = tl (drop (n - 1) ?ys)" by (simp add: drop_Suc tl_drop)
  then have dn: "drop n ?ys = drop n xs" unfolding sn dr by simp
  have tk: "mset (take n ?ys) = mset (take n xs)" by (rule mset_take_eq[OF ms dn])
  have "take (Suc (n - 1)) ?ys = take (n - 1) ?ys @ [?ys ! (n - 1)]"
    using bounds len by (intro take_Suc_conv_app_nth) simp
  then have t2: "take n ?ys = take (n - 1) ?ys @ [?ys ! (n - 1)]" unfolding sn .
  have "?ys ! (n - 1) = hd (drop (n - 1) ?ys)"
    using bounds len by (intro hd_drop_conv_nth[symmetric]) simp
  then have y: "?ys ! (n - 1) = xs ! 0" unfolding dr by simp
  show "mset (take (n - 1) ?ys) + {#xs ! 0#} = mset (take n xs)"
    unfolding tk[symmetric] t2 y by simp
  have inv: "\<forall>c<n - 1. 0 < c \<and> 0 \<le> (c - 1) div 2 \<and> (c - 1) div 2 \<noteq> 0
        \<longrightarrow> \<not> cmp (?zs ! ((c - 1) div 2)) (?zs ! c)"
  proof (intro allI impI)
    fix c assume c: "c < n - 1" "0 < c \<and> 0 \<le> (c - 1) div 2 \<and> (c - 1) div 2 \<noteq> 0"
    then have p: "(c - 1) div 2 < n - 1" "(c - 1) div 2 \<noteq> n - 1" "(c - 1) div 2 \<noteq> 0"
      "c \<noteq> n - 1" "c \<noteq> 0" "c < n" by arith+
    from h p(6) c(2) have "\<not> cmp (xs ! ((c - 1) div 2)) (xs ! c)"
      unfolding heap_from_def by blast
    moreover have "?zs ! c = xs ! c" using nz[of c] p by simp
    moreover have "?zs ! ((c - 1) div 2) = xs ! ((c - 1) div 2)"
      using nz[of "(c - 1) div 2"] p by simp
    ultimately show "\<not> cmp (?zs ! ((c - 1) div 2)) (?zs ! c)" by simp
  qed
  have "heap_from cmp (sift_down cmp ?zs (n - 1) 0) (n - 1) 0"
    using n by (intro sift_down_heap[OF wo _ inv]) simp_all
  then show "heap_from cmp ?ys (n - 1) 0" by (simp add: ys)
qed

section \<open>The result of heapRank\<close>

lemma sorted_tail_is_top:
  fixes f :: "'a \<Rightarrow> nat"
  assumes ms: "mset ys = mset xs"
    and m: "m \<le> length ys"
    and so: "sorted (map f (drop m ys))"
    and le: "\<forall>a\<in>set (take m ys). \<forall>b\<in>set (drop m ys). f a \<le> f b"
  shows "map f (drop m ys) = drop m (sort (map f xs))"
proof -
  let ?l = "sort (map f (take m ys)) @ map f (drop m ys)"
  have s1: "sorted ?l" using so le by (auto simp: sorted_append)
  have s2: "mset ?l = mset (map f xs)"
  proof -
    have "mset ?l = image_mset f (mset (take m ys) + mset (drop m ys))" by simp
    also have "mset (take m ys) + mset (drop m ys) = mset ys"
      by (simp only: mset_append[symmetric] append_take_drop_id)
    also have "image_mset f (mset ys) = mset (map f xs)" using ms by simp
    finally show ?thesis .
  qed
  have "sort (map f xs) = ?l" by (rule properties_for_sort[OF s2 s1])
  then show ?thesis using m by simp
qed

lemma pops_Suc: "pops (Suc k) ys = pop_heap player_less (pops k ys) (length (pops k ys) - k)"
  by (simp add: pops_def)

lemma pops_invariant:
  assumes h: "heap_from player_less ys (length ys) 0"
  shows "k \<le> length ys \<Longrightarrow>
    length (pops k ys) = length ys \<and> mset (pops k ys) = mset ys \<and>
    heap_from player_less (pops k ys) (length ys - k) 0 \<and>
    sorted (map level_m (drop (length ys - k) (pops k ys))) \<and>
    (\<forall>a\<in>set (take (length ys - k) (pops k ys)).
       \<forall>b\<in>set (drop (length ys - k) (pops k ys)). level_m a \<le> level_m b)"
proof (induction k)
  case 0
  with h show ?case by (simp add: pops_def)
next
  case (Suc k)
  let ?zs = "pops k ys"
  let ?n = "length ys - k"
  from Suc have IH: "length ?zs = length ys" "mset ?zs = mset ys"
    "heap_from player_less ?zs ?n 0"
    "sorted (map level_m (drop ?n ?zs))"
    "\<forall>a\<in>set (take ?n ?zs). \<forall>b\<in>set (drop ?n ?zs). level_m a \<le> level_m b"
    by simp_all
  have n: "1 \<le> ?n" "?n \<le> length ?zs" using Suc.prems IH(1) by simp_all
  have n1: "?n - 1 = length ys - Suc k" by simp
  let ?ws = "pop_heap player_less ?zs ?n"
  note pp = pop_heap_props[OF weak_order_player_less IH(3) n]
  have ws: "pops (Suc k) ys = ?ws" by (simp add: pops_Suc IH(1))
  have root: "level_m a \<le> level_m (?zs ! 0)" if "a \<in> set (take ?n ?zs)" for a
  proof -
    from that obtain i where i: "i < ?n" "a = ?zs ! i"
      using n by (auto simp: in_set_conv_nth)
    from heap_root[OF weak_order_player_less IH(3) i(1)] i(2)
    show ?thesis by (simp add: player_less_def)
  qed
  have z0: "?zs ! 0 \<in> set (take ?n ?zs)"
    using n by (auto simp: in_set_conv_nth intro!: exI[of _ 0])
  have sub: "set (take (?n - 1) ?ws) \<subseteq> set (take ?n ?zs)"
  proof -
    have "mset (take (?n - 1) ?ws) \<subseteq># mset (take ?n ?zs)"
      using pp(4) by (metis mset_subset_eq_add_left)
    from set_mset_mono[OF this] show ?thesis by simp
  qed
  have so: "sorted (map level_m (drop (?n - 1) ?ws))"
    unfolding pp(3) using IH(4,5) z0 by simp
  have le: "\<forall>a\<in>set (take (?n - 1) ?ws). \<forall>b\<in>set (drop (?n - 1) ?ws). level_m a \<le> level_m b"
  proof (intro ballI)
    fix a b assume a: "a \<in> set (take (?n - 1) ?ws)" and b: "b \<in> set (drop (?n - 1) ?ws)"
    from a sub have a': "a \<in> set (take ?n ?zs)" by blast
    from b have "b = ?zs ! 0 \<or> b \<in> set (drop ?n ?zs)" unfolding pp(3) by simp
    with root[OF a'] IH(5) a' show "level_m a \<le> level_m b" by blast
  qed
  show ?case
    unfolding ws n1[symmetric] using pp(1,2,5) IH(1,2) so le by simp
qed

lemma heapRank_unfold:
  "heapRank players =
     (\<lparr>top_m = drop (length players - length players div 10)
                 (pops (length players div 10) (make_heap player_less players)),
       cutoffs_m = Map.empty\<rparr>,
      pops (length players div 10) (make_heap player_less players))"
proof -
  have h: "heap_from player_less (make_heap player_less players)
      (length (make_heap player_less players)) 0"
    using make_heap_heap[OF weak_order_player_less, of players] by simp
  have k: "length players div 10 \<le> length (make_heap player_less players)" by simp
  from pops_invariant[OF h k]
  have "length (pops (length players div 10) (make_heap player_less players)) = length players"
    by simp
  then show ?thesis by (simp add: heapRank_def Let_def pops_def)
qed

lemma mset_drop_subseteq: "mset (drop n xs) \<subseteq># mset xs"
proof -
  have "mset (take n xs) + mset (drop n xs) = mset xs"
    by (simp only: mset_append[symmetric] append_take_drop_id)
  then show ?thesis by (metis mset_subset_eq_add_right)
qed

lemma heapRank_props:
  "length (top_m (fst (heapRank players))) = length players div 10"
  "mset (top_m (fst (heapRank players))) \<subseteq># mset players"
  "map level_m (top_m (fst (heapRank players)))
     = top_levels (length players div 10) (map level_m players)"
  "cutoffs_m (fst (heapRank players)) = Map.empty"
  "sorted (map level_m (top_m (fst (heapRank players))))"
proof -
  let ?k = "length players div 10"
  let ?h = "make_heap player_less players"
  let ?ys = "pops ?k ?h"
  have h: "heap_from player_less ?h (length ?h) 0"
    using make_heap_heap[OF weak_order_player_less, of players] by simp
  have k: "?k \<le> length ?h" by simp
  from pops_invariant[OF h k]
  have inv: "length ?ys = length players" "mset ?ys = mset players"
    "sorted (map level_m (drop (length players - ?k) ?ys))"
    "\<forall>a\<in>set (take (length players - ?k) ?ys).
       \<forall>b\<in>set (drop (length players - ?k) ?ys). level_m a \<le> level_m b"
    by simp_all
  have top: "top_m (fst (heapRank players)) = drop (length players - ?k) ?ys"
    by (simp add: heapRank_unfold)
  show 1: "length (top_m (fst (heapRank players))) = ?k"
    unfolding top using inv(1) by simp
  show 2: "mset (top_m (fst (heapRank players))) \<subseteq># mset players"
    unfolding top using mset_drop_subseteq[of "length players - ?k" ?ys] inv(2) by simp
  show 3: "map level_m (top_m (fst (heapRank players))) = top_levels ?k (map level_m players)"
    unfolding top top_levels_def
    using sorted_tail_is_top[OF inv(2) _ inv(3) inv(4)] inv(1) by simp
  show 4: "cutoffs_m (fst (heapRank players)) = Map.empty" by (simp add: heapRank_unfold)
  show "sorted (map level_m (top_m (fst (heapRank players))))"
    unfolding top by (rule inv(3))
qed

section \<open>The player stream\<close>

lemma remaining_valid: "valid_stream s \<Longrightarrow> remaining s = length (players_m s) - currentIndex_m s"
proof -
  assume v: "valid_stream s"
  then have le: "currentIndex_m s \<le> length (players_m s)" and lt: "length (players_m s) < 2 ^ 64"
    by (simp_all add: valid_stream_def)
  define d where "d = length (players_m s) - currentIndex_m s"
  have eq: "int (length (players_m s)) - int (currentIndex_m s) = int d"
    using le by (simp add: d_def)
  have "d < 2 ^ 64" using lt by (simp add: d_def less_imp_diff_less)
  then have "int d < 2 ^ 64" by simp
  then have "int d mod 2 ^ 64 = int d" by (simp add: mod_pos_pos_trivial)
  then show ?thesis by (simp add: remaining_def size_t_sub_def eq d_def)
qed

lemma remaining_pending: "valid_stream s \<Longrightarrow> remaining s = length (pending s)"
  by (simp add: remaining_valid pending_def)

lemma valid_stream_init: "length ps < 2 ^ 64 \<Longrightarrow> valid_stream (VectorPlayerStream_init ps)"
  by (simp add: valid_stream_def VectorPlayerStream_init_def)

lemma pending_init [simp]: "pending (VectorPlayerStream_init ps) = ps"
  by (simp add: pending_def VectorPlayerStream_init_def)

lemma nextPlayer_ok:
  assumes "valid_stream s" "remaining s \<noteq> 0"
  shows "nextPlayer s = Inr (players_m s ! currentIndex_m s, s\<lparr>currentIndex_m := currentIndex_m s + 1\<rparr>)"
    and "valid_stream (s\<lparr>currentIndex_m := currentIndex_m s + 1\<rparr>)"
    and "pending s = players_m s ! currentIndex_m s # pending (s\<lparr>currentIndex_m := currentIndex_m s + 1\<rparr>)"
    and "remaining (s\<lparr>currentIndex_m := currentIndex_m s + 1\<rparr>) = remaining s - 1"
proof -
  from assms have lt: "currentIndex_m s < length (players_m s)"
    by (simp add: remaining_valid)
  then show "nextPlayer s = Inr (players_m s ! currentIndex_m s, s\<lparr>currentIndex_m := currentIndex_m s + 1\<rparr>)"
    by (simp add: nextPlayer_def)
  from lt assms(1) show v: "valid_stream (s\<lparr>currentIndex_m := currentIndex_m s + 1\<rparr>)"
    by (simp add: valid_stream_def)
  from lt show "pending s = players_m s ! currentIndex_m s # pending (s\<lparr>currentIndex_m := currentIndex_m s + 1\<rparr>)"
    by (simp add: pending_def Cons_nth_drop_Suc)
  show "remaining (s\<lparr>currentIndex_m := currentIndex_m s + 1\<rparr>) = remaining s - 1"
    using remaining_valid[OF v] remaining_valid[OF assms(1)] by simp
qed

text \<open>
  C9. In every state a stream object can be in, \<open>nextPlayer\<close> fails (with the exception
  modelled by \<open>Exhausted\<close>) exactly when \<open>remaining\<close> is 0; otherwise it returns the next
  player of the sequence and moves the cursor by one, so that \<open>remaining\<close> drops by exactly
  one.
\<close>
theorem nextPlayer_exhausted_iff_remaining_0:
  assumes "valid_stream s"
  shows "(nextPlayer s = Inl Exhausted \<longleftrightarrow> remaining s = 0) \<and>
         (isl (nextPlayer s) \<longleftrightarrow> remaining s = 0) \<and>
         (remaining s \<noteq> 0 \<longrightarrow>
            (\<exists>p s'. nextPlayer s = Inr (p, s') \<and> pending s = p # pending s' \<and>
                    p = players_m s ! currentIndex_m s \<and>
                    currentIndex_m s' = currentIndex_m s + 1 \<and> players_m s' = players_m s \<and>
                    remaining s' = remaining s - 1 \<and> valid_stream s'))"
proof (cases "remaining s = 0")
  case True
  with assms have "length (players_m s) \<le> currentIndex_m s" by (simp add: remaining_valid)
  then have "nextPlayer s = Inl Exhausted" by (simp add: nextPlayer_def)
  with True show ?thesis by simp
next
  case False
  from nextPlayer_ok[OF assms False] False show ?thesis by simp
qed

theorem nextPlayer_exhausted_iff_remaining_0_witness:
  "valid_stream (VectorPlayerStream_init (with_levels [5, 1])) \<and>
   remaining (VectorPlayerStream_init (with_levels [5, 1])) \<noteq> 0 \<and>
   \<not> isl (nextPlayer (VectorPlayerStream_init (with_levels [5, 1]))) \<and>
   valid_stream \<lparr>players_m = with_levels [5, 1], currentIndex_m = 2\<rparr> \<and>
   remaining \<lparr>players_m = with_levels [5, 1], currentIndex_m = 2\<rparr> = 0 \<and>
   nextPlayer \<lparr>players_m = with_levels [5, 1], currentIndex_m = 2\<rparr> = Inl Exhausted"
proof -
  have v1: "valid_stream (VectorPlayerStream_init (with_levels [5, 1]))"
    by (simp add: valid_stream_def VectorPlayerStream_init_def with_levels_def)
  have v2: "valid_stream \<lparr>players_m = with_levels [5, 1], currentIndex_m = 2\<rparr>"
    by (simp add: valid_stream_def with_levels_def)
  have r1: "remaining (VectorPlayerStream_init (with_levels [5, 1])) \<noteq> 0"
    using remaining_valid[OF v1] by (simp add: VectorPlayerStream_init_def with_levels_def)
  have r2: "remaining \<lparr>players_m = with_levels [5, 1], currentIndex_m = 2\<rparr> = 0"
    using remaining_valid[OF v2] by (simp add: with_levels_def)
  from nextPlayer_exhausted_iff_remaining_0[OF v1] nextPlayer_exhausted_iff_remaining_0[OF v2]
    v1 v2 r1 r2
  show ?thesis by simp
qed

section \<open>The loop of rankIncoming\<close>

lemma rankIncoming_loop_stop:
  "remaining s = 0 \<Longrightarrow> rankIncoming_loop k s st = (Inr st, s)"
  by (subst rankIncoming_loop.simps) simp

lemma rankIncoming_loop_step:
  "remaining s \<noteq> 0 \<Longrightarrow> nextPlayer s = Inr (p, s') \<Longrightarrow>
   rankIncoming_loop k s st =
     (case rankIncoming_body k p st of
        Inl e \<Rightarrow> (Inl e, s')
      | Inr st' \<Rightarrow> rankIncoming_loop k s' st')"
  by (subst rankIncoming_loop.simps) simp

lemma rankIncoming_loop_process_all:
  "valid_stream s \<Longrightarrow> fst (rankIncoming_loop k s st) = process_all k (pending s) st"
proof (induction "length (pending s)" arbitrary: s st)
  case 0
  then have "remaining s = 0" by (simp add: remaining_pending)
  with 0 show ?case by (simp add: rankIncoming_loop_stop)
next
  case (Suc n)
  from Suc.hyps(2) Suc.prems have r: "remaining s \<noteq> 0"
    using remaining_pending[of s] by auto
  let ?p = "players_m s ! currentIndex_m s"
  let ?s = "s\<lparr>currentIndex_m := currentIndex_m s + 1\<rparr>"
  note np = nextPlayer_ok[OF Suc.prems r]
  have n: "n = length (pending ?s)" using Suc.hyps(2) np(3) by simp
  show ?case
  proof (cases "rankIncoming_body k ?p st")
    case (Inl e)
    then show ?thesis
      by (simp add: rankIncoming_loop_step[OF r np(1)] np(3)[symmetric, THEN sym])
  next
    case (Inr st')
    with Suc.hyps(1)[OF n np(2), of st'] show ?thesis
      by (simp add: rankIncoming_loop_step[OF r np(1)] np(3)[symmetric, THEN sym])
  qed
qed

lemma rankIncoming_loop_stream:
  "valid_stream s \<Longrightarrow> rankIncoming_loop k s st = (Inr st', s') \<Longrightarrow>
   s' = s\<lparr>currentIndex_m := length (players_m s)\<rparr>"
proof (induction "length (pending s)" arbitrary: s st)
  case 0
  then have "remaining s = 0" "currentIndex_m s = length (players_m s)"
    by (simp_all add: remaining_pending pending_def valid_stream_def)
  with 0 show ?case by (simp add: rankIncoming_loop_stop)
next
  case (Suc n)
  from Suc.hyps(2) Suc.prems(1) have r: "remaining s \<noteq> 0"
    using remaining_pending[of s] by auto
  let ?p = "players_m s ! currentIndex_m s"
  let ?s = "s\<lparr>currentIndex_m := currentIndex_m s + 1\<rparr>"
  note np = nextPlayer_ok[OF Suc.prems(1) r]
  have n: "n = length (pending ?s)" using Suc.hyps(2) np(3) by simp
  show ?case
  proof (cases "rankIncoming_body k ?p st")
    case (Inl e)
    with Suc.prems(2) show ?thesis
      by (simp add: rankIncoming_loop_step[OF r np(1)])
  next
    case (Inr st'')
    with Suc.prems(2) have "rankIncoming_loop k ?s st'' = (Inr st', s')"
      by (simp add: rankIncoming_loop_step[OF r np(1)])
    from Suc.hyps(1)[OF n np(2) this] show ?thesis by simp
  qed
qed

section \<open>replaceMin is a sift-down\<close>

lemma replaceMin_loop_unfold:
  "replaceMin_loop xs cur =
     (if sift_best min_heap_cmp xs (length xs) cur = cur then xs
      else replaceMin_loop (swap xs cur (sift_best min_heap_cmp xs (length xs) cur))
             (sift_best min_heap_cmp xs (length xs) cur))"
  by (subst replaceMin_loop.simps) (simp add: sift_best_def min_heap_cmp_def Let_def)

lemma replaceMin_loop_sift_down:
  "replaceMin_loop xs cur = sift_down min_heap_cmp xs (length xs) cur"
proof (induction "length xs - cur" arbitrary: xs cur rule: less_induct)
  case less
  let ?b = "sift_best min_heap_cmp xs (length xs) cur"
  show ?case
  proof (cases "?b = cur")
    case True
    then show ?thesis
      by (subst replaceMin_loop_unfold, subst sift_down_unfold) simp
  next
    case False
    from False sift_best_lt[OF False] sift_best_ge[of cur min_heap_cmp xs "length xs"]
    have "length (swap xs cur ?b) - ?b < length xs - cur" by simp
    from less[OF this] False show ?thesis
      by (subst replaceMin_loop_unfold, subst sift_down_unfold) simp
  qed
qed

lemma length_replaceMin [simp]: "length (replaceMin xs p) = length xs"
  by (simp add: replaceMin_def replaceMin_loop_sift_down)

lemma mset_replaceMin:
  "xs \<noteq> [] \<Longrightarrow> mset (replaceMin xs p) = add_mset p (mset xs - {#xs ! 0#})"
  by (simp add: replaceMin_def replaceMin_loop_sift_down sift_down_mset mset_update)

lemma replaceMin_heap:
  assumes h: "heap_from min_heap_cmp xs (length xs) 0"
  shows "heap_from min_heap_cmp (replaceMin xs p) (length xs) 0"
proof -
  let ?ys = "xs[0 := p]"
  have inv: "\<forall>c<length ?ys. 0 < c \<and> 0 \<le> (c - 1) div 2 \<and> (c - 1) div 2 \<noteq> 0
        \<longrightarrow> \<not> min_heap_cmp (?ys ! ((c - 1) div 2)) (?ys ! c)"
  proof (intro allI impI)
    fix c assume c: "c < length ?ys" "0 < c \<and> 0 \<le> (c - 1) div 2 \<and> (c - 1) div 2 \<noteq> 0"
    with h have "\<not> min_heap_cmp (xs ! ((c - 1) div 2)) (xs ! c)"
      unfolding heap_from_def by simp
    with c show "\<not> min_heap_cmp (?ys ! ((c - 1) div 2)) (?ys ! c)" by simp
  qed
  have "heap_from min_heap_cmp (sift_down min_heap_cmp ?ys (length ?ys) 0) (length ?ys) 0"
    by (intro sift_down_heap[OF weak_order_min_heap_cmp _ inv]) simp_all
  then show ?thesis by (simp add: replaceMin_def replaceMin_loop_sift_down)
qed

section \<open>The iterations never fail for a capacity of at least one\<close>

lemma front_nonempty: "xs \<noteq> [] \<Longrightarrow> front xs = Inr (hd xs)"
  by (cases xs) (simp_all add: front_def)

lemma length_next_buffer: "length (next_buffer k p buf) = (if length buf < k then length buf + 1 else length buf)"
  by (simp add: next_buffer_def)

lemma rankIncoming_body_next_state:
  assumes k: "1 \<le> k"
  shows "rankIncoming_body k p st = Inr (next_state k st p)"
proof -
  obtain buf cutoffs n where st: "st = (buf, cutoffs, n)" by (cases st)
  have ne: "next_buffer k p buf \<noteq> []"
  proof -
    have "0 < length (next_buffer k p buf)" using k by (auto simp: length_next_buffer)
    then show ?thesis by simp
  qed
  show ?thesis
  proof (cases "length buf < k")
    case True
    then show ?thesis using k ne front_nonempty[OF ne]
      by (simp add: st rankIncoming_body_def next_state_def next_buffer_def Let_def)
  next
    case False
    with k have "buf \<noteq> []" by auto
    from front_nonempty[OF this] False k ne front_nonempty[OF ne] show ?thesis
      by (simp add: st rankIncoming_body_def next_state_def next_buffer_def Let_def)
  qed
qed

lemma process_all_foldl:
  "1 \<le> k \<Longrightarrow> process_all k ps st = Inr (foldl (next_state k) st ps)"
  by (induction ps arbitrary: st) (simp_all add: rankIncoming_body_next_state)

lemma rankIncoming_result:
  assumes v: "valid_stream s" and k: "1 \<le> k"
  shows "rankIncoming s k =
    (case final_state k (pending s) of (buf, cutoffs, n) \<Rightarrow>
       (Inr \<lparr>top_m = sort_key level_m buf,
             cutoffs_m = (if buf \<noteq> [] then cutoffs(n \<mapsto> level_m (hd buf)) else cutoffs)\<rparr>,
        s\<lparr>currentIndex_m := length (players_m s)\<rparr>))"
proof -
  obtain r s' where l: "rankIncoming_loop k s ([], Map.empty, 0) = (r, s')"
    by (cases "rankIncoming_loop k s ([], Map.empty, 0)")
  from rankIncoming_loop_process_all[OF v, of k "([], Map.empty, 0)"] l
  have r: "r = Inr (final_state k (pending s))"
    by (simp add: process_all_foldl[OF k] final_state_def)
  from rankIncoming_loop_stream[OF v l[unfolded r]]
  have s': "s' = s\<lparr>currentIndex_m := length (players_m s)\<rparr>" .
  obtain buf cutoffs n where f: "final_state k (pending s) = (buf, cutoffs, n)"
    by (cases "final_state k (pending s)")
  show ?thesis
    by (simp add: rankIncoming_def l r s' f front_nonempty)
qed

section \<open>The buffer holds the greatest levels seen\<close>

lemma min_heap_root:
  assumes "heap_from min_heap_cmp buf (length buf) 0" "b \<in> set buf"
  shows "level_m (hd buf) \<le> level_m b"
proof -
  from assms(2) obtain i where i: "i < length buf" "b = buf ! i" by (auto simp: in_set_conv_nth)
  from heap_root[OF weak_order_min_heap_cmp assms(1) i(1)] i(2)
  have "level_m (buf ! 0) \<le> level_m b" by (simp add: min_heap_cmp_def)
  moreover have "buf \<noteq> []" using assms(2) by auto
  ultimately show ?thesis by (simp add: hd_conv_nth)
qed

lemma buffer_inv_length: "buffer_inv k seen buf rest \<Longrightarrow> length buf = min k (length seen)"
  by (simp add: buffer_inv_def)

lemma buffer_inv_heap:
  "buffer_inv k seen buf rest \<Longrightarrow> k \<le> length seen \<Longrightarrow> heap_from min_heap_cmp buf (length buf) 0"
  unfolding buffer_inv_def by (elim conjE) (rule mp)

lemma buffer_inv_init: "buffer_inv k [] [] []"
  by (simp add: buffer_inv_def heap_from_def)

lemma buffer_inv_step:
  assumes k: "1 \<le> k" and inv: "buffer_inv k seen buf rest"
  shows "\<exists>rest'. buffer_inv k (seen @ [p]) (next_buffer k p buf) rest'"
proof -
  from inv have len: "length buf = min k (length seen)"
    and small: "length seen < k \<Longrightarrow> buf = seen"
    and ms: "mset seen = mset rest + mset buf"
    and le: "\<And>a b. a \<in> set rest \<Longrightarrow> b \<in> set buf \<Longrightarrow> level_m a \<le> level_m b"
    by (simp_all add: buffer_inv_def)
  from inv have heap: "k \<le> length seen \<longrightarrow> heap_from min_heap_cmp buf (length buf) 0"
    unfolding buffer_inv_def by (elim conjE)
  show ?thesis
  proof (cases "length buf < k")
    case True
    with len have s: "length seen < k" by simp
    with small have buf: "buf = seen" by simp
    show ?thesis
    proof (cases "length seen + 1 = k")
      case full: True
      have nb: "next_buffer k p buf = make_heap min_heap_cmp (seen @ [p])"
        using full by (simp add: next_buffer_def buf)
      have "heap_from min_heap_cmp (make_heap min_heap_cmp (seen @ [p])) (length (seen @ [p])) 0"
        by (rule make_heap_heap[OF weak_order_min_heap_cmp])
      then have "buffer_inv k (seen @ [p]) (next_buffer k p buf) []"
        using full by (simp add: nb buffer_inv_def)
      then show ?thesis ..
    next
      case False
      with s have lt: "length seen + 1 < k" by simp
      then have nb: "next_buffer k p buf = seen @ [p]"
        by (simp add: next_buffer_def buf)
      have "buffer_inv k (seen @ [p]) (next_buffer k p buf) []"
        using lt by (simp add: nb buffer_inv_def)
      then show ?thesis ..
    qed
  next
    case False
    with len have s: "k \<le> length seen" and lb: "length buf = k" by simp_all
    from heap s have h: "heap_from min_heap_cmp buf (length buf) 0" by (rule mp)
    from lb k have ne: "buf \<noteq> []" by auto
    then have hd: "hd buf = buf ! 0" "hd buf \<in> set buf" by (simp_all add: hd_conv_nth)
    show ?thesis
    proof (cases "level_m p > level_m (hd buf)")
      case repl: True
      have nb: "next_buffer k p buf = replaceMin buf p"
        using False repl by (simp add: next_buffer_def)
      have mb: "mset (replaceMin buf p) = add_mset p (mset buf - {#hd buf#})"
        using mset_replaceMin[OF ne] hd(1) by simp
      have split: "mset buf = add_mset (hd buf) (mset buf - {#hd buf#})"
        using hd(2) by simp
      have 1: "length (replaceMin buf p) = min k (length (seen @ [p]))"
        using lb s by simp
      have 3: "heap_from min_heap_cmp (replaceMin buf p) (length (replaceMin buf p)) 0"
        using replaceMin_heap[OF h] by simp
      have 4: "mset (seen @ [p]) = mset (hd buf # rest) + mset (replaceMin buf p)"
      proof -
        define M where "M = mset buf - {#hd buf#}"
        have b: "mset buf = add_mset (hd buf) M" unfolding M_def by (rule split)
        have "mset (seen @ [p]) = add_mset p (mset rest + add_mset (hd buf) M)"
          by (simp add: ms b)
        also have "\<dots> = mset (hd buf # rest) + add_mset p M" by simp
        finally show ?thesis unfolding mb M_def .
      qed
      have 5: "\<forall>a\<in>set (hd buf # rest). \<forall>b\<in>set (replaceMin buf p). level_m a \<le> level_m b"
      proof (intro ballI)
        fix a b assume a: "a \<in> set (hd buf # rest)" and b: "b \<in> set (replaceMin buf p)"
        from b have "b \<in># add_mset p (mset buf - {#hd buf#})"
          unfolding mb[symmetric] by simp
        then have b': "b = p \<or> b \<in> set buf" by (auto dest: in_diffD)
        have a': "level_m a \<le> level_m (hd buf)"
          using a le[OF _ hd(2)] by auto
        from b' show "level_m a \<le> level_m b"
        proof
          assume "b = p" with a' repl show ?thesis by simp
        next
          assume "b \<in> set buf"
          from min_heap_root[OF h this] a' show ?thesis by simp
        qed
      qed
      have "buffer_inv k (seen @ [p]) (next_buffer k p buf) (hd buf # rest)"
        unfolding buffer_inv_def nb using 1 3 4 5 s by simp
      then show ?thesis ..
    next
      case keep: False
      have nb: "next_buffer k p buf = buf"
        using False keep by (simp add: next_buffer_def)
      have 5: "\<forall>a\<in>set (p # rest). \<forall>b\<in>set buf. level_m a \<le> level_m b"
      proof (intro ballI)
        fix a b assume a: "a \<in> set (p # rest)" and b: "b \<in> set buf"
        from a have "a = p \<or> a \<in> set rest" by simp
        then show "level_m a \<le> level_m b"
        proof
          assume "a = p"
          with keep min_heap_root[OF h b] show ?thesis by simp
        next
          assume "a \<in> set rest" from le[OF this b] show ?thesis .
        qed
      qed
      have "buffer_inv k (seen @ [p]) (next_buffer k p buf) (p # rest)"
        unfolding buffer_inv_def nb using lb s h ms 5 by simp
      then show ?thesis ..
    qed
  qed
qed

lemma final_state_snoc: "final_state k (ps @ [p]) = next_state k (final_state k ps) p"
  by (simp add: final_state_def)

lemma fst_next_state: "fst (next_state k st p) = next_buffer k p (fst st)"
  by (cases st) (simp add: next_state_def)

lemma count_next_state: "snd (snd (next_state k st p)) = snd (snd st) + 1"
  by (cases st) (simp add: next_state_def)

lemma final_state_count: "snd (snd (final_state k ps)) = length ps"
  by (induction ps rule: rev_induct)
     (simp_all add: final_state_def count_next_state)

lemma final_state_buffer_inv:
  "1 \<le> k \<Longrightarrow> \<exists>rest. buffer_inv k ps (fst (final_state k ps)) rest"
proof (induction ps rule: rev_induct)
  case Nil
  have "buffer_inv k [] (fst (final_state k [])) []"
    by (simp add: final_state_def buffer_inv_init)
  then show ?case ..
next
  case (snoc p ps)
  then obtain rest where "buffer_inv k ps (fst (final_state k ps)) rest" by blast
  from buffer_inv_step[OF snoc.prems this, of p] show ?case
    by (simp add: final_state_snoc fst_next_state)
qed

lemma buffer_inv_top_levels:
  assumes "buffer_inv k seen buf rest"
  shows "map level_m (sort_key level_m buf) = top_levels k (map level_m seen)"
proof -
  from assms have len: "length buf = min k (length seen)"
    and ms: "mset seen = mset rest + mset buf"
    and le: "\<forall>a\<in>set rest. \<forall>b\<in>set buf. level_m a \<le> level_m b"
    by (simp_all add: buffer_inv_def)
  let ?ys = "rest @ sort_key level_m buf"
  have l: "length seen = length rest + length buf"
    using arg_cong[OF ms, of size] by simp
  have 1: "mset ?ys = mset seen" using ms by simp
  have 2: "length rest \<le> length ?ys" by simp
  have 3: "sorted (map level_m (drop (length rest) ?ys))" by simp
  have 4: "\<forall>a\<in>set (take (length rest) ?ys). \<forall>b\<in>set (drop (length rest) ?ys). level_m a \<le> level_m b"
    using le by simp
  from sorted_tail_is_top[OF 1 2 3 4]
  have "map level_m (sort_key level_m buf) = drop (length rest) (sort (map level_m seen))" by simp
  moreover have "length rest = length seen - k" using l len by simp
  ultimately show ?thesis by (simp add: top_levels_def)
qed

section \<open>The checkpoints\<close>

lemma cutoffs_next_state:
  "fst (snd (next_state k st p)) =
     (if (snd (snd st) + 1) mod k = 0
      then (fst (snd st))(snd (snd st) + 1 \<mapsto> level_m (hd (next_buffer k p (fst st))))
      else fst (snd st))"
  by (cases st) (simp add: next_state_def)

lemma final_state_cutoffs:
  "1 \<le> k \<Longrightarrow> fst (snd (final_state k ps)) c =
     (if 0 < c \<and> k dvd c \<and> c \<le> length ps then Some (bar_after k (take c ps)) else None)"
proof (induction ps arbitrary: c rule: rev_induct)
  case Nil
  then show ?case by (auto simp: final_state_def)
next
  case (snoc p ps)
  let ?old = "fst (snd (final_state k ps))"
  have nb: "next_buffer k p (fst (final_state k ps)) = fst (final_state k (ps @ [p]))"
    by (simp add: final_state_snoc fst_next_state)
  have cut: "fst (snd (final_state k (ps @ [p]))) =
      (if k dvd (length ps + 1) then ?old(length ps + 1 \<mapsto> bar_after k (ps @ [p])) else ?old)"
    unfolding final_state_snoc cutoffs_next_state final_state_count nb bar_after_def
    by (simp add: mod_eq_0_iff_dvd)
  show ?case
  proof (cases "c = length ps + 1")
    case True
    have "?old c = None" using snoc.IH[OF snoc.prems, of c] True by simp
    with True show ?thesis unfolding cut by simp
  next
    case False
    have "fst (snd (final_state k (ps @ [p]))) c = ?old c"
      unfolding cut using False by simp
    also have "\<dots> = (if 0 < c \<and> k dvd c \<and> c \<le> length ps
        then Some (bar_after k (take c ps)) else None)"
      by (rule snoc.IH[OF snoc.prems])
    also have "\<dots> = (if 0 < c \<and> k dvd c \<and> c \<le> length (ps @ [p])
        then Some (bar_after k (take c (ps @ [p]))) else None)"
      using False by auto
    finally show ?thesis .
  qed
qed

lemma bar_after_is_min:
  assumes k: "1 \<le> k" "k \<le> length ps"
  shows "bar_after k ps = Min (set (top_levels k (map level_m ps)))"
proof -
  from final_state_buffer_inv[OF k(1), of ps] obtain rest
    where inv: "buffer_inv k ps (fst (final_state k ps)) rest" by blast
  let ?buf = "fst (final_state k ps)"
  from buffer_inv_length[OF inv] k have len: "length ?buf = k" by simp
  from buffer_inv_heap[OF inv k(2)] have h: "heap_from min_heap_cmp ?buf (length ?buf) 0" .
  from len k have ne: "?buf \<noteq> []" by auto
  have "set (top_levels k (map level_m ps)) = level_m ` set ?buf"
    using buffer_inv_top_levels[OF inv, symmetric] by (simp add: image_set[symmetric] del: image_set)
  moreover have "Min (level_m ` set ?buf) = level_m (hd ?buf)"
  proof (rule Min_eqI)
    show "finite (level_m ` set ?buf)" by simp
    show "level_m (hd ?buf) \<in> level_m ` set ?buf" using ne by simp
    fix y assume "y \<in> level_m ` set ?buf"
    then obtain b where "b \<in> set ?buf" "y = level_m b" by blast
    with min_heap_root[OF h] show "level_m (hd ?buf) \<le> y" by simp
  qed
  ultimately show ?thesis by (simp add: bar_after_def)
qed

lemma bar_after_step:
  assumes k: "1 \<le> k" "k \<le> length ps"
  shows "bar_after k ps \<le> bar_after k (ps @ [p])"
proof -
  from final_state_buffer_inv[OF k(1), of ps] obtain rest
    where inv: "buffer_inv k ps (fst (final_state k ps)) rest" by blast
  let ?buf = "fst (final_state k ps)"
  from buffer_inv_length[OF inv] k have len: "length ?buf = k" by simp
  from buffer_inv_heap[OF inv k(2)] have h: "heap_from min_heap_cmp ?buf (length ?buf) 0" .
  from len k have ne: "?buf \<noteq> []" by auto
  have nb: "fst (final_state k (ps @ [p])) = next_buffer k p ?buf"
    by (simp add: final_state_snoc fst_next_state)
  show ?thesis
  proof (cases "level_m p > level_m (hd ?buf)")
    case False
    then show ?thesis using len by (simp add: bar_after_def nb next_buffer_def)
  next
    case True
    then have r: "next_buffer k p ?buf = replaceMin ?buf p"
      using len by (simp add: next_buffer_def)
    have "replaceMin ?buf p \<noteq> []"
    proof
      assume "replaceMin ?buf p = []"
      then have "length (replaceMin ?buf p) = 0" by (simp only: list.size)
      then have "length ?buf = 0" by (simp only: length_replaceMin)
      with ne show False by simp
    qed
    then have "hd (replaceMin ?buf p) \<in> set (replaceMin ?buf p)" by simp
    then have "hd (replaceMin ?buf p) \<in># mset (replaceMin ?buf p)" by simp
    then have "hd (replaceMin ?buf p) \<in># add_mset p (mset ?buf - {#?buf ! 0#})"
      unfolding mset_replaceMin[OF ne, of p] .
    then have "hd (replaceMin ?buf p) = p \<or> hd (replaceMin ?buf p) \<in> set ?buf"
      by (auto dest: in_diffD)
    then show ?thesis
    proof
      assume "hd (replaceMin ?buf p) = p"
      with True show ?thesis by (simp add: bar_after_def nb r)
    next
      assume "hd (replaceMin ?buf p) \<in> set ?buf"
      from min_heap_root[OF h this] show ?thesis by (simp add: bar_after_def nb r)
    qed
  qed
qed

lemma bar_after_mono:
  assumes k: "1 \<le> k"
  shows "k \<le> c1 \<Longrightarrow> c1 \<le> c2 \<Longrightarrow> c2 \<le> length ps \<Longrightarrow>
         bar_after k (take c1 ps) \<le> bar_after k (take c2 ps)"
proof (induction c2)
  case 0
  then show ?case by simp
next
  case (Suc c2)
  show ?case
  proof (cases "c1 = Suc c2")
    case True
    then show ?thesis by simp
  next
    case False
    with Suc.prems have le: "c1 \<le> c2" "c2 < length ps" by simp_all
    from Suc.IH[OF Suc.prems(1) le(1)] le(2)
    have "bar_after k (take c1 ps) \<le> bar_after k (take c2 ps)" by simp
    also have "\<dots> \<le> bar_after k (take c2 ps @ [ps ! c2])"
      using Suc.prems(1) le by (intro bar_after_step[OF k]) simp
    also have "take c2 ps @ [ps ! c2] = take (Suc c2) ps"
      using le(2) by (simp add: take_Suc_conv_app_nth)
    finally show ?thesis .
  qed
qed

section \<open>Worked examples\<close>

lemmas heap_eval = make_heap_def sift_down_unfold sift_best_def swap_def min_heap_cmp_def
  player_less_def replaceMin_def replaceMin_loop_sift_down pop_heap_def Let_def

lemma valid_stream_with_levels [simp]:
  "length ls < 2 ^ 64 \<Longrightarrow> valid_stream (VectorPlayerStream_init (with_levels ls))"
  by (simp add: valid_stream_init with_levels_def)

lemma example_stream:
  "rankIncoming (VectorPlayerStream_init (with_levels [5, 1, 9, 2, 8, 3])) 3 =
     (Inr \<lparr>top_m = with_levels [5, 8, 9], cutoffs_m = [3 \<mapsto> 1, 6 \<mapsto> 5]\<rparr>,
      \<lparr>players_m = with_levels [5, 1, 9, 2, 8, 3], currentIndex_m = 6\<rparr>)"
proof -
  have v: "valid_stream (VectorPlayerStream_init (with_levels [5, 1, 9, 2, 8, 3]))" by simp
  have f: "final_state 3 (with_levels [5, 1, 9, 2, 8, 3]) = (with_levels [5, 8, 9], [3 \<mapsto> 1, 6 \<mapsto> 5], 6)"
    by (simp add: final_state_def next_state_def next_buffer_def with_levels_def heap_eval)
       (simp add: eval_nat_numeral)
  have k: "1 \<le> (3::nat)" by simp
  show ?thesis
    unfolding rankIncoming_result[OF v k] pending_init f
    by (simp add: with_levels_def VectorPlayerStream_init_def)
qed

lemma length_with_levels [simp]: "length (with_levels ls) = length ls"
  by (simp add: with_levels_def)

lemmas partition_eval = partition_players_def partition_loop_keep partition_loop_skip
  partition_loop_stop swap_def with_levels_def

lemma example_partition_1:
  "partition_players (with_levels [1, 2, 3, 4, 5, 6, 7, 8, 9, 10]) 0 9 =
     (with_levels [10, 2, 3, 4, 5, 6, 7, 8, 9, 1], 0)"
  by (simp add: partition_eval)

lemma example_partition_2:
  "partition_players (with_levels [10, 2, 3, 4, 5, 6, 7, 8, 9, 1]) 1 9 =
     (with_levels [10, 2, 3, 4, 5, 6, 7, 8, 9, 1], 9)"
  by (simp add: partition_eval)

lemma example_quickSelect:
  "quickSelect (with_levels [1, 2, 3, 4, 5, 6, 7, 8, 9, 10]) 0 9 9 =
     with_levels [10, 2, 3, 4, 5, 6, 7, 8, 9, 1]"
proof -
  have "quickSelect (with_levels [10, 2, 3, 4, 5, 6, 7, 8, 9, 1]) 1 9 9 =
      with_levels [10, 2, 3, 4, 5, 6, 7, 8, 9, 1]"
    by (subst quickSelect.simps, subst example_partition_2) simp
  then show ?thesis
    by (subst quickSelect.simps, subst example_partition_1) simp
qed

lemma example_quickSelectRank:
  "quickSelectRank (with_levels [1, 2, 3, 4, 5, 6, 7, 8, 9, 10]) =
     (\<lparr>top_m = with_levels [1], cutoffs_m = Map.empty\<rparr>,
      with_levels [10, 2, 3, 4, 5, 6, 7, 8, 9, 1])"
  using example_quickSelect by (simp add: quickSelectRank_def Let_def with_levels_def)

lemma example_short_stream:
  "rankIncoming (VectorPlayerStream_init (with_levels [5, 1])) 3 =
     (Inr \<lparr>top_m = with_levels [1, 5], cutoffs_m = [2 \<mapsto> 5]\<rparr>,
      \<lparr>players_m = with_levels [5, 1], currentIndex_m = 2\<rparr>)"
proof -
  have v: "valid_stream (VectorPlayerStream_init (with_levels [5, 1]))" by simp
  have f: "final_state 3 (with_levels [5, 1]) = (with_levels [5, 1], Map.empty, 2)"
    by (simp add: final_state_def next_state_def next_buffer_def with_levels_def)
  have k: "1 \<le> (3::nat)" by simp
  show ?thesis
    unfolding rankIncoming_result[OF v k] pending_init f
    by (simp add: with_levels_def VectorPlayerStream_init_def)
qed

section \<open>The result of rankIncoming\<close>

lemma rankIncoming_ok:
  assumes v: "valid_stream s" and k: "1 \<le> k"
  shows "rankIncoming s k =
    (Inr \<lparr>top_m = sort_key level_m (fst (final_state k (pending s))),
          cutoffs_m = (\<lambda>c. if 0 < c \<and> c \<le> length (pending s) \<and> (k dvd c \<or> c = length (pending s))
                           then Some (bar_after k (take c (pending s))) else None)\<rparr>,
     s\<lparr>currentIndex_m := length (players_m s)\<rparr>)"
proof -
  let ?ps = "pending s"
  obtain buf cutoffs n where f: "final_state k ?ps = (buf, cutoffs, n)"
    by (cases "final_state k ?ps")
  have n: "n = length ?ps" using final_state_count[of k ?ps] f by simp
  have cut: "cutoffs c = (if 0 < c \<and> k dvd c \<and> c \<le> length ?ps
      then Some (bar_after k (take c ?ps)) else None)" for c
    using final_state_cutoffs[OF k, of ?ps c] f by simp
  from final_state_buffer_inv[OF k, of ?ps] f obtain rest where "buffer_inv k ?ps buf rest"
    by auto
  from buffer_inv_length[OF this] have len: "length buf = min k (length ?ps)" .
  have ne: "buf \<noteq> [] \<longleftrightarrow> 0 < length ?ps"
  proof -
    have "0 < length buf \<longleftrightarrow> 0 < length ?ps" unfolding len using k by simp
    then show ?thesis by simp
  qed
  have hd: "level_m (hd buf) = bar_after k ?ps" by (simp add: bar_after_def f)
  have "(if buf \<noteq> [] then cutoffs(n \<mapsto> level_m (hd buf)) else cutoffs) =
      (\<lambda>c. if 0 < c \<and> c \<le> length ?ps \<and> (k dvd c \<or> c = length ?ps)
           then Some (bar_after k (take c ?ps)) else None)"
  proof (rule ext)
    fix c
    show "(if buf \<noteq> [] then cutoffs(n \<mapsto> level_m (hd buf)) else cutoffs) c =
      (if 0 < c \<and> c \<le> length ?ps \<and> (k dvd c \<or> c = length ?ps)
       then Some (bar_after k (take c ?ps)) else None)"
    proof (cases "c = length ?ps")
      case True
      then show ?thesis using ne by (simp add: n hd cut)
    next
      case False
      then show ?thesis using ne by (auto simp: n cut)
    qed
  qed
  then show ?thesis
    unfolding rankIncoming_result[OF v k] f by simp
qed

lemma rankIncoming_top_sorted:
  "rankIncoming s k = (Inr r, s') \<Longrightarrow> sorted (map level_m (top_m r))"
  by (auto simp: rankIncoming_def split: prod.splits sum.splits if_splits)

lemma map_sort_key: "map f (sort_key f xs) = sort (map f xs)"
  by (rule properties_for_sort[symmetric]) simp_all

section \<open>What partition and quickSelect establish\<close>

lemma nth_swap_int:
  assumes "0 \<le> a" "a < int (length xs)" "0 \<le> b" "b < int (length xs)" "0 \<le> j"
  shows "swap xs (nat a) (nat b) ! nat j =
     (if j = b then xs ! nat a else if j = a then xs ! nat b else xs ! nat j)"
proof -
  have "nat a < length xs" "nat b < length xs" using assms by simp_all
  from nth_swap[OF this, of "nat j"] assms show ?thesis by (simp add: nat_eq_iff)
qed

lemma mset_swap_int:
  assumes "0 \<le> a" "a < int (length xs)" "0 \<le> b" "b < int (length xs)"
  shows "mset (swap xs (nat a) (nat b)) = mset xs"
proof -
  have "nat a < length xs" "nat b < length xs" using assms by simp_all
  then show ?thesis by (rule mset_swap_list)
qed

lemma partition_loop_post:
  "0 \<le> low \<Longrightarrow> low - 1 \<le> i \<Longrightarrow> i < it \<Longrightarrow> it \<le> high \<Longrightarrow> high < int (length xs) \<Longrightarrow>
   (\<forall>j. low \<le> j \<and> j \<le> i \<longrightarrow> level_m pivot \<le> level_m (xs ! nat j)) \<Longrightarrow>
   (\<forall>j. i < j \<and> j < it \<longrightarrow> level_m (xs ! nat j) < level_m pivot) \<Longrightarrow>
   partition_loop xs pivot high i it = (ys, r) \<Longrightarrow>
     length ys = length xs \<and> mset ys = mset xs \<and> i \<le> r \<and> r < high \<and>
     (\<forall>j. low \<le> j \<and> j \<le> r \<longrightarrow> level_m pivot \<le> level_m (ys ! nat j)) \<and>
     (\<forall>j. r < j \<and> j < high \<longrightarrow> level_m (ys ! nat j) < level_m pivot) \<and>
     (\<forall>j. 0 \<le> j \<and> (j < low \<or> high \<le> j) \<longrightarrow> ys ! nat j = xs ! nat j)"
proof (induction xs pivot high i it arbitrary: ys r rule: partition_loop.induct)
  case (1 xs pivot high i it)
  note low = "1.prems"(1) and li = "1.prems"(2) and iit = "1.prems"(3) and ith = "1.prems"(4)
    and hl = "1.prems"(5) and A = "1.prems"(6) and B = "1.prems"(7) and res = "1.prems"(8)
  show ?case
  proof (cases "it \<le> high - 1")
    case False
    with ith have "it = high" by simp
    moreover from res False have "ys = xs" "r = i" by (simp_all add: partition_loop_stop)
    ultimately show ?thesis using A B iit by simp
  next
    case True
    show ?thesis
    proof (cases "level_m pivot \<le> level_m (xs ! nat it)")
      case keep: True
      let ?zs = "swap xs (nat (i + 1)) (nat it)"
      have b: "0 \<le> i + 1" "i + 1 < int (length xs)" "0 \<le> it" "it < int (length xs)"
        using low li iit True hl by simp_all
      have nth: "0 \<le> j \<Longrightarrow> ?zs ! nat j =
          (if j = it then xs ! nat (i + 1) else if j = i + 1 then xs ! nat it else xs ! nat j)" for j
        by (rule nth_swap_int[OF b])
      have res': "partition_loop ?zs pivot high (i + 1) (it + 1) = (ys, r)"
        using res by (simp add: partition_loop_keep[OF True keep])
      have A': "\<forall>j. low \<le> j \<and> j \<le> i + 1 \<longrightarrow> level_m pivot \<le> level_m (?zs ! nat j)"
      proof (intro allI impI)
        fix j assume j: "low \<le> j \<and> j \<le> i + 1"
        then have j0: "0 \<le> j" using low by simp
        note e = nth[OF j0]
        show "level_m pivot \<le> level_m (?zs ! nat j)"
        proof (cases "j = i + 1")
          case True
          then show ?thesis unfolding e using keep iit by simp
        next
          case False
          with j have "j \<le> i" by simp
          with j A iit show ?thesis unfolding e by simp
        qed
      qed
      have B': "\<forall>j. i + 1 < j \<and> j < it + 1 \<longrightarrow> level_m (?zs ! nat j) < level_m pivot"
      proof (intro allI impI)
        fix j assume j: "i + 1 < j \<and> j < it + 1"
        then have j0: "0 \<le> j" using b by simp
        note e = nth[OF j0]
        show "level_m (?zs ! nat j) < level_m pivot"
        proof (cases "j = it")
          case True
          with j have "i < i + 1 \<and> i + 1 < it" by simp
          with B have "level_m (xs ! nat (i + 1)) < level_m pivot" by blast
          with True show ?thesis unfolding e by simp
        next
          case False
          with j have "i < j \<and> j < it" by simp
          with B have "level_m (xs ! nat j) < level_m pivot" by blast
          with False j show ?thesis unfolding e by simp
        qed
      qed
      have len: "high < int (length ?zs)" using hl by simp
      from "1.IH"(1)[OF True keep low _ _ _ len A' B' res'] li iit True
      have IH: "length ys = length ?zs" "mset ys = mset ?zs" "i + 1 \<le> r" "r < high"
        "\<forall>j. low \<le> j \<and> j \<le> r \<longrightarrow> level_m pivot \<le> level_m (ys ! nat j)"
        "\<forall>j. r < j \<and> j < high \<longrightarrow> level_m (ys ! nat j) < level_m pivot"
        "\<forall>j. 0 \<le> j \<and> (j < low \<or> high \<le> j) \<longrightarrow> ys ! nat j = ?zs ! nat j"
        by simp_all
      have out: "\<forall>j. 0 \<le> j \<and> (j < low \<or> high \<le> j) \<longrightarrow> ys ! nat j = xs ! nat j"
      proof (intro allI impI)
        fix j assume j: "0 \<le> j \<and> (j < low \<or> high \<le> j)"
        with IH(7) have "ys ! nat j = ?zs ! nat j" by blast
        also have "\<dots> = xs ! nat j" unfolding nth[OF conjunct1[OF j]] using j li iit True by auto
        finally show "ys ! nat j = xs ! nat j" .
      qed
      from IH(1-6) out mset_swap_int[OF b] show ?thesis by simp
    next
      case skip: False
      have res': "partition_loop xs pivot high i (it + 1) = (ys, r)"
        using res by (simp add: partition_loop_skip[OF True skip])
      have B': "\<forall>j. i < j \<and> j < it + 1 \<longrightarrow> level_m (xs ! nat j) < level_m pivot"
      proof (intro allI impI)
        fix j assume j: "i < j \<and> j < it + 1"
        show "level_m (xs ! nat j) < level_m pivot"
        proof (cases "j = it")
          case True
          with skip show ?thesis by simp
        next
          case False
          with j have "i < j \<and> j < it" by simp
          with B show ?thesis by blast
        qed
      qed
      from "1.IH"(2)[OF True skip low li _ _ hl A B' res'] iit True
      show ?thesis by simp
    qed
  qed
qed

lemma partition_players_post:
  assumes low: "0 \<le> low" and lh: "low \<le> high" and hl: "high < int (length xs)"
    and res: "partition_players xs low high = (zs, p)"
  shows "length zs = length xs" "mset zs = mset xs" "low \<le> p" "p \<le> high"
    "\<forall>j. low \<le> j \<and> j < p \<longrightarrow> level_m (zs ! nat p) \<le> level_m (zs ! nat j)"
    "\<forall>j. p < j \<and> j \<le> high \<longrightarrow> level_m (zs ! nat j) < level_m (zs ! nat p)"
    "\<forall>j. 0 \<le> j \<and> (j < low \<or> high < j) \<longrightarrow> zs ! nat j = xs ! nat j"
proof -
  let ?pivot = "xs ! nat high"
  obtain ys i where loop: "partition_loop xs ?pivot high (low - 1) low = (ys, i)"
    by (cases "partition_loop xs ?pivot high (low - 1) low")
  have A0: "\<forall>j. low \<le> j \<and> j \<le> low - 1 \<longrightarrow> level_m ?pivot \<le> level_m (xs ! nat j)" by simp
  have B0: "\<forall>j. low - 1 < j \<and> j < low \<longrightarrow> level_m (xs ! nat j) < level_m ?pivot" by simp
  from partition_loop_post[OF low _ _ lh hl A0 B0 loop]
  have post: "length ys = length xs" "mset ys = mset xs" "low - 1 \<le> i" "i < high"
    "\<forall>j. low \<le> j \<and> j \<le> i \<longrightarrow> level_m ?pivot \<le> level_m (ys ! nat j)"
    "\<forall>j. i < j \<and> j < high \<longrightarrow> level_m (ys ! nat j) < level_m ?pivot"
    "\<forall>j. 0 \<le> j \<and> (j < low \<or> high \<le> j) \<longrightarrow> ys ! nat j = xs ! nat j"
    by simp_all
  have "partition_players xs low high = (swap ys (nat (i + 1)) (nat high), i + 1)"
    by (simp add: partition_players_def loop)
  with res have zs: "zs = swap ys (nat (i + 1)) (nat high)" and p: "p = i + 1"
    by auto
  have b: "0 \<le> i + 1" "i + 1 < int (length ys)" "0 \<le> high" "high < int (length ys)"
    using low lh hl post(1,3,4) by simp_all
  have nth: "0 \<le> j \<Longrightarrow> zs ! nat j =
      (if j = high then ys ! nat (i + 1) else if j = i + 1 then ys ! nat high else ys ! nat j)" for j
    unfolding zs by (rule nth_swap_int[OF b])
  have yh: "ys ! nat high = ?pivot" using post(7) b(3) by simp
  have zp: "zs ! nat p = ?pivot"
    unfolding p nth[OF b(1)] using yh by simp
  show "length zs = length xs" by (simp add: zs post(1))
  show "mset zs = mset xs" unfolding zs using mset_swap_int[OF b] post(2) by simp
  show "low \<le> p" "p \<le> high" using post(3,4) p by simp_all
  show "\<forall>j. low \<le> j \<and> j < p \<longrightarrow> level_m (zs ! nat p) \<le> level_m (zs ! nat j)"
  proof (intro allI impI)
    fix j assume j: "low \<le> j \<and> j < p"
    then have j0: "0 \<le> j" using low by simp
    from j p post(4) have "j \<noteq> high" "j \<noteq> i + 1" "j \<le> i" by simp_all
    with post(5) j show "level_m (zs ! nat p) \<le> level_m (zs ! nat j)"
      unfolding zp nth[OF j0] by simp
  qed
  show "\<forall>j. p < j \<and> j \<le> high \<longrightarrow> level_m (zs ! nat j) < level_m (zs ! nat p)"
  proof (intro allI impI)
    fix j assume j: "p < j \<and> j \<le> high"
    then have j0: "0 \<le> j" using b p by simp
    show "level_m (zs ! nat j) < level_m (zs ! nat p)"
    proof (cases "j = high")
      case True
      with j p have "i < i + 1 \<and> i + 1 < high" by simp
      with post(6) have "level_m (ys ! nat (i + 1)) < level_m ?pivot" by blast
      with True show ?thesis unfolding zp nth[OF j0] by simp
    next
      case False
      with j p have "i < j \<and> j < high" "j \<noteq> i + 1" by simp_all
      with post(6) False show ?thesis unfolding zp nth[OF j0] by simp
    qed
  qed
  show "\<forall>j. 0 \<le> j \<and> (j < low \<or> high < j) \<longrightarrow> zs ! nat j = xs ! nat j"
  proof (intro allI impI)
    fix j assume j: "0 \<le> j \<and> (j < low \<or> high < j)"
    then have "j \<noteq> high" "j \<noteq> i + 1" using post(3,4) by auto
    moreover from j post(7) have "ys ! nat j = xs ! nat j" by auto
    ultimately show "zs ! nat j = xs ! nat j" unfolding nth[OF conjunct1[OF j]] by simp
  qed
qed

lemma same_outside_range_perm:
  fixes zs xs :: "'a list"
  assumes len: "length zs = length xs" and ms: "mset zs = mset xs"
    and lh: "l \<le> h" "h < length xs"
    and out: "\<forall>j. j < l \<or> h < j \<longrightarrow> zs ! j = xs ! j"
    and j: "l \<le> j" "j \<le> h"
  shows "\<exists>j'. l \<le> j' \<and> j' \<le> h \<and> zs ! j = xs ! j'"
proof -
  let ?seg = "\<lambda>ws. take (h + 1 - l) (drop l ws)"
  have t: "take l zs = take l xs"
    using out len lh by (intro nth_equalityI) simp_all
  have d: "drop (h + 1) zs = drop (h + 1) xs"
    using out len lh by (intro nth_equalityI) simp_all
  have split: "ws = take l ws @ ?seg ws @ drop (h + 1) ws" for ws :: "'a list"
  proof -
    have "drop l ws = ?seg ws @ drop (h + 1 - l) (drop l ws)"
      by (rule append_take_drop_id[symmetric])
    also have "drop (h + 1 - l) (drop l ws) = drop (h + 1) ws" using lh by simp
    finally have "take l ws @ drop l ws = take l ws @ ?seg ws @ drop (h + 1) ws" by simp
    then show ?thesis by (simp only: append_take_drop_id)
  qed
  have "mset (take l zs) + mset (?seg zs) + mset (drop (h + 1) zs) = mset zs"
    using arg_cong[OF split[of zs], of mset] by simp
  moreover have "mset (take l xs) + mset (?seg xs) + mset (drop (h + 1) xs) = mset xs"
    using arg_cong[OF split[of xs], of mset] by simp
  ultimately have "mset (take l xs) + mset (?seg zs) + mset (drop (h + 1) xs)
      = mset (take l xs) + mset (?seg xs) + mset (drop (h + 1) xs)"
    unfolding t d ms by (rule trans[OF _ sym])
  then have "mset (?seg zs) = mset (?seg xs)" by simp
  then have se: "set (?seg zs) = set (?seg xs)" by (rule mset_eq_setD)
  have "zs ! j = ?seg zs ! (j - l)" using j lh len by simp
  moreover have "j - l < length (?seg zs)" using j lh len by simp
  ultimately have "zs ! j \<in> set (?seg zs)" by (metis nth_mem)
  with se have "zs ! j \<in> set (?seg xs)" by simp
  then obtain k where k: "k < length (?seg xs)" "zs ! j = ?seg xs ! k"
    by (auto simp: in_set_conv_nth)
  then have "k < h + 1 - l" "zs ! j = xs ! (l + k)" using lh by simp_all
  then have "l \<le> l + k \<and> l + k \<le> h \<and> zs ! j = xs ! (l + k)" by simp
  then show ?thesis by blast
qed

lemma partition_players_nat:
  assumes lh: "l \<le> h" "h < length xs"
    and res: "partition_players xs (int l) (int h) = (zs, p)"
  shows "\<exists>q. p = int q \<and> l \<le> q \<and> q \<le> h \<and> length zs = length xs \<and> mset zs = mset xs \<and>
    (\<forall>j. l \<le> j \<and> j < q \<longrightarrow> level_m (zs ! q) \<le> level_m (zs ! j)) \<and>
    (\<forall>j. q < j \<and> j \<le> h \<longrightarrow> level_m (zs ! j) < level_m (zs ! q)) \<and>
    (\<forall>j. j < l \<or> h < j \<longrightarrow> zs ! j = xs ! j) \<and>
    (\<forall>j. l \<le> j \<and> j \<le> h \<longrightarrow> (\<exists>j'. l \<le> j' \<and> j' \<le> h \<and> zs ! j = xs ! j'))"
proof -
  have pre: "0 \<le> int l" "int l \<le> int h" "int h < int (length xs)" using lh by simp_all
  note post = partition_players_post[OF pre res]
  from post(3) have p0: "0 \<le> p" by simp
  define q where "q = nat p"
  have pq: "p = int q" using p0 by (simp add: q_def)
  have 1: "l \<le> q" "q \<le> h" using post(3,4) by (simp_all add: pq)
  have 2: "\<forall>j. l \<le> j \<and> j < q \<longrightarrow> level_m (zs ! q) \<le> level_m (zs ! j)"
  proof (intro allI impI)
    fix j assume "l \<le> j \<and> j < q"
    then have "int l \<le> int j \<and> int j < p" by (simp add: pq)
    with post(5) have "level_m (zs ! nat p) \<le> level_m (zs ! nat (int j))" by blast
    then show "level_m (zs ! q) \<le> level_m (zs ! j)" by (simp add: q_def)
  qed
  have 3: "\<forall>j. q < j \<and> j \<le> h \<longrightarrow> level_m (zs ! j) < level_m (zs ! q)"
  proof (intro allI impI)
    fix j assume "q < j \<and> j \<le> h"
    then have "p < int j \<and> int j \<le> int h" by (simp add: pq)
    with post(6) have "level_m (zs ! nat (int j)) < level_m (zs ! nat p)" by blast
    then show "level_m (zs ! j) < level_m (zs ! q)" by (simp add: q_def)
  qed
  have 4: "\<forall>j. j < l \<or> h < j \<longrightarrow> zs ! j = xs ! j"
  proof (intro allI impI)
    fix j assume "j < l \<or> h < j"
    then have "0 \<le> int j \<and> (int j < int l \<or> int h < int j)" by simp
    with post(7) have "zs ! nat (int j) = xs ! nat (int j)" by blast
    then show "zs ! j = xs ! j" by simp
  qed
  have 5: "\<forall>j. l \<le> j \<and> j \<le> h \<longrightarrow> (\<exists>j'. l \<le> j' \<and> j' \<le> h \<and> zs ! j = xs ! j')"
    using same_outside_range_perm[OF post(1,2) lh 4] by blast
  from pq 1 post(1,2) 2 3 4 5 show ?thesis by blast
qed

lemma split_atD:
  "split_at xs m \<Longrightarrow> i < m \<Longrightarrow> m \<le> j \<Longrightarrow> j < length xs \<Longrightarrow> level_m (xs ! j) \<le> level_m (xs ! i)"
  unfolding split_at_def by blast

lemma partition_players_split:
  assumes lh: "l \<le> h" "h < length xs"
    and res: "partition_players xs (int l) (int h) = (zs, p)"
    and s1: "split_at xs l" and s2: "split_at xs (h + 1)"
  shows "length zs = length xs" "mset zs = mset xs" "int l \<le> p" "p \<le> int h"
    "split_at zs l" "split_at zs (h + 1)" "split_at zs (nat p)" "split_at zs (nat p + 1)"
proof -
  from partition_players_nat[OF lh res] obtain q where q: "p = int q" "l \<le> q" "q \<le> h"
    and len: "length zs = length xs" and ms: "mset zs = mset xs"
    and ge: "\<And>j. l \<le> j \<Longrightarrow> j < q \<Longrightarrow> level_m (zs ! q) \<le> level_m (zs ! j)"
    and lt: "\<And>j. q < j \<Longrightarrow> j \<le> h \<Longrightarrow> level_m (zs ! j) < level_m (zs ! q)"
    and out: "\<And>j. j < l \<or> h < j \<Longrightarrow> zs ! j = xs ! j"
    and perm: "\<And>j. l \<le> j \<Longrightarrow> j \<le> h \<Longrightarrow> \<exists>j'. l \<le> j' \<and> j' \<le> h \<and> zs ! j = xs ! j'"
    by blast
  show "length zs = length xs" "mset zs = mset xs" by fact+
  show "int l \<le> p" "p \<le> int h" using q by simp_all
  show z1: "split_at zs l"
    unfolding split_at_def
  proof (intro allI impI)
    fix i j assume a: "i < l \<and> l \<le> j \<and> j < length zs"
    then have i: "zs ! i = xs ! i" using out by simp
    show "level_m (zs ! j) \<le> level_m (zs ! i)"
    proof (cases "j \<le> h")
      case True
      with a perm obtain j' where "l \<le> j'" "j' \<le> h" "zs ! j = xs ! j'" by blast
      with split_atD[OF s1, of i j'] a lh i show ?thesis by simp
    next
      case False
      then have "zs ! j = xs ! j" using out by simp
      with split_atD[OF s1, of i j] a len i show ?thesis by simp
    qed
  qed
  show z2: "split_at zs (h + 1)"
    unfolding split_at_def
  proof (intro allI impI)
    fix i j assume a: "i < h + 1 \<and> h + 1 \<le> j \<and> j < length zs"
    then have j: "zs ! j = xs ! j" using out by simp
    show "level_m (zs ! j) \<le> level_m (zs ! i)"
    proof (cases "l \<le> i")
      case True
      with a perm[of i] obtain i' where "l \<le> i'" "i' \<le> h" "zs ! i = xs ! i'" by auto
      with split_atD[OF s2, of i' j] a len j show ?thesis by simp
    next
      case False
      then have "zs ! i = xs ! i" using out by simp
      with split_atD[OF s2, of i j] a len j show ?thesis by simp
    qed
  qed
  have mid: "level_m (zs ! j) \<le> level_m (zs ! i)"
    if "l \<le> i" "i \<le> q" "q \<le> j" "i < j" "j < length zs" for i j
  proof (cases "j \<le> h")
    case False
    with split_atD[OF z2, of i j] that q show ?thesis by simp
  next
    case True
    show ?thesis
    proof (cases "j = q")
      case jq: True
      with that ge[of i] show ?thesis by simp
    next
      case False
      with that have "q < j" by simp
      from lt[OF this True] have 1: "level_m (zs ! j) < level_m (zs ! q)" .
      show ?thesis
      proof (cases "i = q")
        case True with 1 show ?thesis by simp
      next
        case False
        with that ge[of i] 1 show ?thesis by simp
      qed
    qed
  qed
  show "split_at zs (nat p)"
    unfolding split_at_def
  proof (intro allI impI)
    fix i j assume a: "i < nat p \<and> nat p \<le> j \<and> j < length zs"
    show "level_m (zs ! j) \<le> level_m (zs ! i)"
    proof (cases "l \<le> i")
      case True
      with a q mid[of i j] show ?thesis by simp
    next
      case False
      with split_atD[OF z1, of i j] a q show ?thesis by simp
    qed
  qed
  show "split_at zs (nat p + 1)"
    unfolding split_at_def
  proof (intro allI impI)
    fix i j assume a: "i < nat p + 1 \<and> nat p + 1 \<le> j \<and> j < length zs"
    show "level_m (zs ! j) \<le> level_m (zs ! i)"
    proof (cases "l \<le> i")
      case True
      with a q mid[of i j] show ?thesis by simp
    next
      case False
      with split_atD[OF z1, of i j] a q show ?thesis by simp
    qed
  qed
qed

lemma quickSelect_post:
  "0 \<le> left \<Longrightarrow> right < int (length xs) \<Longrightarrow> left \<le> right + 1 \<Longrightarrow> left \<le> c \<Longrightarrow> c \<le> right + 1 \<Longrightarrow>
   split_at xs (nat left) \<Longrightarrow> split_at xs (nat (right + 1)) \<Longrightarrow>
   length (quickSelect xs left right c) = length xs \<and>
   mset (quickSelect xs left right c) = mset xs \<and>
   split_at (quickSelect xs left right c) (nat c)"
proof (induction xs left right c rule: quickSelect.induct)
  case (1 xs left right c)
  note l0 = "1.prems"(1) and rl = "1.prems"(2) and lr = "1.prems"(3) and lc = "1.prems"(4)
    and cr = "1.prems"(5) and s1 = "1.prems"(6) and s2 = "1.prems"(7)
  show ?case
  proof (cases "left \<le> right")
    case False
    with lr lc cr have "c = left" by simp
    with False s1 show ?thesis by (subst (1 2 3) quickSelect.simps) simp
  next
    case True
    obtain zs p where res: "partition_players xs left right = (zs, p)"
      by (cases "partition_players xs left right")
    define l h where "l = nat left" and "h = nat right"
    have lh: "l \<le> h" "h < length xs" and il: "left = int l" and ih: "right = int h"
      using l0 True rl by (simp_all add: l_def h_def)
    have h1: "nat (right + 1) = h + 1" using ih by simp
    note ps = partition_players_split[OF lh res[unfolded il ih] s1[folded l_def] s2[unfolded h1]]
    have un: "quickSelect xs left right c =
        (if p = c then zs
         else if c < p then quickSelect zs left (p - 1) c
         else quickSelect zs (p + 1) right c)"
      using True res by (subst quickSelect.simps) simp
    show ?thesis
    proof (cases "p = c")
      case True
      with ps(1,2,7) show ?thesis by (simp add: un)
    next
      case ne: False
      show ?thesis
      proof (cases "c < p")
        case big: True
        have pre: "p - 1 < int (length zs)" "left \<le> p - 1 + 1" "c \<le> p - 1 + 1"
          using ps(1,3,4) lh big by (simp_all add: il)
        have s2': "split_at zs (nat (p - 1 + 1))" using ps(7) by simp
        from "1.IH"(1)[OF True res[symmetric] ne big l0 pre(1,2) lc pre(3) ps(5)[unfolded l_def] s2']
        show ?thesis using ps(1,2) ne big by (simp add: un)
      next
        case small: False
        with ne have pc: "p < c" by simp
        have pre: "0 \<le> p + 1" "right < int (length zs)" "p + 1 \<le> right + 1" "p + 1 \<le> c"
          using ps(1,3,4) lh pc rl by (simp_all add: il ih)
        have e: "nat (p + 1) = nat p + 1" using ps(3) by simp
        have s1': "split_at zs (nat (p + 1))" unfolding e by (rule ps(8))
        have s2': "split_at zs (nat (right + 1))" unfolding h1 by (rule ps(6))
        from "1.IH"(2)[OF True res[symmetric] ne small pre cr s1' s2']
        show ?thesis using ps(1,2) ne small by (simp add: un)
      qed
    qed
  qed
qed

lemma sorted_tail_is_bottom:
  fixes f :: "'a \<Rightarrow> nat"
  assumes ms: "mset ys = mset xs" and m: "m \<le> length ys"
    and le: "\<forall>a\<in>set (take m ys). \<forall>b\<in>set (drop m ys). f b \<le> f a"
  shows "sort (map f (drop m ys)) = take (length ys - m) (sort (map f xs))"
proof -
  let ?l = "sort (map f (drop m ys)) @ sort (map f (take m ys))"
  have s1: "sorted ?l" using le by (auto simp: sorted_append)
  have s2: "mset ?l = mset (map f xs)"
  proof -
    have "mset ?l = image_mset f (mset (take m ys) + mset (drop m ys))" by simp
    also have "mset (take m ys) + mset (drop m ys) = mset ys"
      by (simp only: mset_append[symmetric] append_take_drop_id)
    also have "image_mset f (mset ys) = mset (map f xs)" using ms by simp
    finally show ?thesis .
  qed
  have "sort (map f xs) = ?l" by (rule properties_for_sort[OF s2 s1])
  then show ?thesis by simp
qed

text \<open>
  What \<open>quickSelectRank\<close> returns for every input: a tenth of the players, but those
  of the smallest levels.
\<close>
lemma quickSelectRank_props:
  "length (top_m (fst (quickSelectRank players))) = length players div 10"
  "mset (top_m (fst (quickSelectRank players))) \<subseteq># mset players"
  "map level_m (top_m (fst (quickSelectRank players)))
     = take (length players div 10) (sort (map level_m players))"
  "cutoffs_m (fst (quickSelectRank players)) = Map.empty"
proof -
  let ?n = "length players"
  let ?c = "?n - ?n div 10"
  let ?qs = "quickSelect players 0 (int ?n - 1) (int ?c)"
  have s0: "split_at players (nat 0)" by (simp add: split_at_def)
  have sn: "split_at players (nat (int ?n - 1 + 1))" by (simp add: split_at_def)
  have "length ?qs = ?n \<and> mset ?qs = mset players \<and> split_at ?qs (nat (int ?c))"
    by (rule quickSelect_post[OF _ _ _ _ _ s0 sn]) simp_all
  then have q: "length ?qs = ?n" "mset ?qs = mset players" "split_at ?qs ?c"
    unfolding nat_int by blast+
  have top: "top_m (fst (quickSelectRank players)) = sort_key level_m (drop ?c ?qs)"
    using q(1) by (simp add: quickSelectRank_def Let_def)
  show "length (top_m (fst (quickSelectRank players))) = ?n div 10"
    unfolding top using q(1) by simp
  show "mset (top_m (fst (quickSelectRank players))) \<subseteq># mset players"
    unfolding top using mset_drop_subseteq[of ?c ?qs] q(2) by simp
  have le: "\<forall>a\<in>set (take ?c ?qs). \<forall>b\<in>set (drop ?c ?qs). level_m b \<le> level_m a"
  proof (intro ballI)
    fix a b assume "a \<in> set (take ?c ?qs)" "b \<in> set (drop ?c ?qs)"
    then obtain i j where i: "i < ?c" "a = ?qs ! i" and j: "j < ?n - ?c" "b = ?qs ! (?c + j)"
      using q(1) by (auto simp: in_set_conv_nth)
    from split_atD[OF q(3), of i "?c + j"] i j q(1) show "level_m b \<le> level_m a" by simp
  qed
  have c: "?c \<le> length ?qs" using q(1) by simp
  from sorted_tail_is_bottom[OF q(2) c le]
  show "map level_m (top_m (fst (quickSelectRank players)))
     = take (?n div 10) (sort (map level_m players))"
    unfolding top map_sort_key using q(1) by simp
  show "cutoffs_m (fst (quickSelectRank players)) = Map.empty"
    by (simp add: quickSelectRank_def Let_def)
qed

section \<open>Claims about the offline selectors\<close>

text \<open>
  C5. For every vector of \<open>N\<close> players, \<open>heapRank\<close> returns a result whose top holds
  \<open>N div 10\<close> players of the input, whose levels are exactly the \<open>N div 10\<close> greatest levels
  of the input (as a multiset, here listed in ascending order), with empty cutoffs; for
  \<open>N < 10\<close> the top is empty, and the function returns normally.
\<close>
theorem heapRank_top_tenth:
  "length (top_m (fst (heapRank players))) = length players div 10 \<and>
   mset (top_m (fst (heapRank players))) \<subseteq># mset players \<and>
   map level_m (top_m (fst (heapRank players)))
     = top_levels (length players div 10) (map level_m players) \<and>
   cutoffs_m (fst (heapRank players)) = Map.empty \<and>
   (length players < 10 \<longrightarrow> top_m (fst (heapRank players)) = [])"
proof -
  have "length players < 10 \<longrightarrow> top_m (fst (heapRank players)) = []"
    using heapRank_props(1)[of players] by auto
  with heapRank_props(1-4)[of players] show ?thesis by blast
qed

theorem heapRank_top_tenth_witness:
  "length (with_levels [3, 1, 4, 1, 5, 9, 2, 6]) < 10 \<and>
   top_m (fst (heapRank (with_levels [3, 1, 4, 1, 5, 9, 2, 6]))) = [] \<and>
   map level_m (top_m (fst (heapRank (with_levels [1, 2, 3, 4, 5, 6, 7, 8, 9, 10])))) = [10]"
  using heapRank_top_tenth[of "with_levels [3, 1, 4, 1, 5, 9, 2, 6]"]
    heapRank_top_tenth[of "with_levels [1, 2, 3, 4, 5, 6, 7, 8, 9, 10]"]
  by (simp add: with_levels_def top_levels_def)

text \<open>
  C1 asks of \<open>quickSelectRank\<close> what C5 asks of \<open>heapRank\<close>, and top \<open>[10]\<close> for the ten
  levels 1 to 10. \<open>partition\<close> moves the levels that are at least the pivot to the front, so
  the tail that is cut off after the selection holds the smallest levels: for every input
  the levels of the returned top are the \<open>N div 10\<close> smallest of the input, and on the ten
  levels 1 to 10 the function returns the player of level 1.
\<close>
theorem quickSelectRank_returns_smallest:
  "map level_m (top_m (fst (quickSelectRank players)))
     = take (length players div 10) (sort (map level_m players)) \<and>
   top_m (fst (quickSelectRank (with_levels [1, 2, 3, 4, 5, 6, 7, 8, 9, 10]))) = with_levels [1] \<and>
   map level_m (top_m (fst (quickSelectRank (with_levels [1, 2, 3, 4, 5, 6, 7, 8, 9, 10])))) \<noteq> [10]"
  using example_quickSelectRank quickSelectRank_props(3)[of players]
  by (simp add: with_levels_def)

text \<open>
  C8. The top of the result of each of the three selectors is sorted ascending by level,
  whenever the selector returns a result.
\<close>
theorem top_sorted_ascending:
  "sorted (map level_m (top_m (fst (heapRank players)))) \<and>
   sorted (map level_m (top_m (fst (quickSelectRank players)))) \<and>
   (\<forall>r s'. rankIncoming s k = (Inr r, s') \<longrightarrow> sorted (map level_m (top_m r)))"
proof -
  have "sorted (map level_m (top_m (fst (quickSelectRank players))))"
    by (simp add: quickSelectRank_def Let_def sorted_wrt_drop flip: drop_map)
  with heapRank_props(5)[of players] rankIncoming_top_sorted[of s k] show ?thesis by blast
qed

theorem top_sorted_ascending_witness:
  "sorted (map level_m (top_m (fst (heapRank (with_levels [1, 2, 3, 4, 5, 6, 7, 8, 9, 10]))))) \<and>
   sorted (map level_m (top_m (fst (quickSelectRank (with_levels [1, 2, 3, 4, 5, 6, 7, 8, 9, 10]))))) \<and>
   rankIncoming (VectorPlayerStream_init (with_levels [5, 1, 9, 2, 8, 3])) 3 =
     (Inr \<lparr>top_m = with_levels [5, 8, 9], cutoffs_m = [3 \<mapsto> 1, 6 \<mapsto> 5]\<rparr>,
      \<lparr>players_m = with_levels [5, 1, 9, 2, 8, 3], currentIndex_m = 6\<rparr>) \<and>
   sorted (map level_m (with_levels [5, 8, 9]))"
  using top_sorted_ascending[of "with_levels [1, 2, 3, 4, 5, 6, 7, 8, 9, 10]"
      "VectorPlayerStream_init (with_levels [5, 1, 9, 2, 8, 3])" 3]
    example_stream
  by simp

section \<open>Claims about the streaming selector\<close>

text \<open>
  C10. For every stream and every capacity of at least one, \<open>rankIncoming\<close> neither asks an
  exhausted stream for a player nor reads the front of an empty buffer: the call returns a
  result, and leaves the stream exhausted.
\<close>
theorem rankIncoming_never_fails:
  assumes "valid_stream s" and "1 \<le> k"
  shows "fst (rankIncoming s k) \<noteq> Inl Exhausted \<and> fst (rankIncoming s k) \<noteq> Inl EmptyFront \<and>
         (\<exists>r. rankIncoming s k = (Inr r, s\<lparr>currentIndex_m := length (players_m s)\<rparr>)) \<and>
         remaining (snd (rankIncoming s k)) = 0"
proof -
  have "valid_stream (s\<lparr>currentIndex_m := length (players_m s)\<rparr>)"
    using assms(1) by (simp add: valid_stream_def)
  from remaining_valid[OF this] show ?thesis
    by (simp add: rankIncoming_ok[OF assms])
qed

theorem rankIncoming_never_fails_witness:
  "valid_stream (VectorPlayerStream_init (with_levels [5, 1, 9, 2, 8, 3])) \<and> (1::nat) \<le> 3 \<and>
   fst (rankIncoming (VectorPlayerStream_init (with_levels [5, 1, 9, 2, 8, 3])) 3) \<noteq> Inl Exhausted \<and>
   fst (rankIncoming (VectorPlayerStream_init (with_levels [5, 1, 9, 2, 8, 3])) 3) \<noteq> Inl EmptyFront \<and>
   remaining (snd (rankIncoming (VectorPlayerStream_init (with_levels [5, 1, 9, 2, 8, 3])) 3)) = 0"
  using rankIncoming_never_fails[of "VectorPlayerStream_init (with_levels [5, 1, 9, 2, 8, 3])" 3]
  by simp

text \<open>
  C4. For every stream and every capacity \<open>k\<close> of at least one, \<open>rankIncoming\<close> returns a
  top of \<open>min k n\<close> players, \<open>n\<close> being the number of players the stream held; they are
  players of the stream and their levels are the \<open>k\<close> greatest levels of the stream. When
  the levels of the stream are pairwise distinct, the top is exactly the last \<open>k\<close> players
  of the stream sorted by level.
\<close>
theorem rankIncoming_top_k:
  assumes "valid_stream s" and "1 \<le> k"
  shows "\<exists>r s'. rankIncoming s k = (Inr r, s') \<and>
           length (top_m r) = min k (length (pending s)) \<and>
           mset (top_m r) \<subseteq># mset (pending s) \<and>
           map level_m (top_m r) = top_levels k (map level_m (pending s)) \<and>
           (distinct (map level_m (pending s)) \<longrightarrow>
              top_m r = drop (length (pending s) - k) (sort_key level_m (pending s)))"
proof -
  let ?ps = "pending s"
  let ?buf = "fst (final_state k ?ps)"
  let ?top = "sort_key level_m ?buf"
  from final_state_buffer_inv[OF assms(2), of ?ps] obtain rest
    where inv: "buffer_inv k ?ps ?buf rest" by blast
  have 1: "length ?top = min k (length ?ps)" using buffer_inv_length[OF inv] by simp
  have ms: "mset ?ps = mset rest + mset ?buf" using inv by (simp add: buffer_inv_def)
  have 2: "mset ?top \<subseteq># mset ?ps" unfolding ms by simp
  have 3: "map level_m ?top = top_levels k (map level_m ?ps)"
    by (rule buffer_inv_top_levels[OF inv])
  have 4: "?top = drop (length ?ps - k) (sort_key level_m ?ps)" if d: "distinct (map level_m ?ps)"
  proof -
    let ?u = "drop (length ?ps - k) (sort_key level_m ?ps)"
    have "map level_m ?u = top_levels k (map level_m ?ps)"
      by (simp only: top_levels_def length_map map_sort_key[symmetric] drop_map)
    with 3 have eq: "map level_m ?top = map level_m ?u" by simp
    have inj: "inj_on level_m (set ?ps)" using d by (simp add: distinct_map)
    have "set ?top \<subseteq> set ?ps" using set_mset_mono[OF 2] by simp
    moreover have "set ?u \<subseteq> set ?ps" using set_drop_subset[of "length ?ps - k" "sort_key level_m ?ps"] by simp
    ultimately have "inj_on level_m (set ?top \<union> set ?u)"
      using inj by (meson inj_on_subset Un_least)
    from inj_on_map_eq_map[OF this] eq show ?thesis by blast
  qed
  show ?thesis
    unfolding rankIncoming_ok[OF assms] using 1 2 3 4 by simp
qed

theorem rankIncoming_top_k_witness:
  "valid_stream (VectorPlayerStream_init (with_levels [5, 1, 9, 2, 8, 3])) \<and> (1::nat) \<le> 3 \<and>
   distinct (map level_m (pending (VectorPlayerStream_init (with_levels [5, 1, 9, 2, 8, 3])))) \<and>
   (\<exists>r s'. rankIncoming (VectorPlayerStream_init (with_levels [5, 1, 9, 2, 8, 3])) 3 = (Inr r, s') \<and>
      length (top_m r) = 3 \<and> map level_m (top_m r) = [5, 8, 9] \<and> top_m r = with_levels [5, 8, 9])"
proof -
  let ?s = "VectorPlayerStream_init (with_levels [5, 1, 9, 2, 8, 3])"
  have v: "valid_stream ?s" by simp
  have k: "(1::nat) \<le> 3" by simp
  have d: "distinct (map level_m (pending ?s))" by (simp add: with_levels_def)
  have t: "top_levels 3 (map level_m (pending ?s)) = [5, 8, 9]"
    by (simp add: with_levels_def top_levels_def)
  have u: "drop (length (pending ?s) - 3) (sort_key level_m (pending ?s)) = with_levels [5, 8, 9]"
    by (simp add: with_levels_def)
  have m: "min 3 (length (pending ?s)) = 3" by simp
  from rankIncoming_top_k[OF v k] obtain r s' where r: "rankIncoming ?s 3 = (Inr r, s')"
    "length (top_m r) = min 3 (length (pending ?s))"
    "map level_m (top_m r) = top_levels 3 (map level_m (pending ?s))"
    "distinct (map level_m (pending ?s)) \<longrightarrow>
       top_m r = drop (length (pending ?s) - 3) (sort_key level_m (pending ?s))"
    by auto
  from r(4) d have "top_m r = with_levels [5, 8, 9]" unfolding u by (rule mp)
  with r(1) r(2)[unfolded m] r(3)[unfolded t]
  have "\<exists>r s'. rankIncoming ?s 3 = (Inr r, s') \<and>
      length (top_m r) = 3 \<and> map level_m (top_m r) = [5, 8, 9] \<and> top_m r = with_levels [5, 8, 9]"
    by (intro exI conjI)
  with v k d show ?thesis by (intro conjI)
qed

text \<open>
  C6. For every stream and every capacity \<open>k\<close> of at least one: every positive multiple \<open>c\<close>
  of \<open>k\<close> up to the number of players of the stream is a key of the cutoffs returned by
  \<open>rankIncoming\<close>, and its value is the least of the \<open>k\<close> greatest levels among the first
  \<open>c\<close> players.
\<close>
theorem rankIncoming_checkpoint_value:
  assumes "valid_stream s" and "1 \<le> k"
    and "rankIncoming s k = (Inr r, s')"
    and "0 < c" and "k dvd c" and "c \<le> length (pending s)"
  shows "cutoffs_m r c = Some (Min (set (top_levels k (map level_m (take c (pending s))))))"
proof -
  from assms(4,5) have kc: "k \<le> c" by (simp add: dvd_imp_le)
  from assms(3) have "cutoffs_m r c = Some (bar_after k (take c (pending s)))"
    unfolding rankIncoming_ok[OF assms(1,2)] using assms(4,5,6) by auto
  moreover have "bar_after k (take c (pending s))
      = Min (set (top_levels k (map level_m (take c (pending s)))))"
    using kc assms(6) by (intro bar_after_is_min[OF assms(2)]) simp
  ultimately show ?thesis by simp
qed

theorem rankIncoming_checkpoint_value_witness:
  "valid_stream (VectorPlayerStream_init (with_levels [5, 1, 9, 2, 8, 3])) \<and> (1::nat) \<le> 3 \<and>
   rankIncoming (VectorPlayerStream_init (with_levels [5, 1, 9, 2, 8, 3])) 3 =
     (Inr \<lparr>top_m = with_levels [5, 8, 9], cutoffs_m = [3 \<mapsto> 1, 6 \<mapsto> 5]\<rparr>,
      \<lparr>players_m = with_levels [5, 1, 9, 2, 8, 3], currentIndex_m = 6\<rparr>) \<and>
   (0::nat) < 3 \<and> (3::nat) dvd 3 \<and>
   3 \<le> length (pending (VectorPlayerStream_init (with_levels [5, 1, 9, 2, 8, 3]))) \<and>
   [3 \<mapsto> 1, 6 \<mapsto> 5] (3::nat) =
     Some (Min (set (top_levels 3
       (map level_m (take 3 (pending (VectorPlayerStream_init (with_levels [5, 1, 9, 2, 8, 3]))))))))"
proof -
  let ?s = "VectorPlayerStream_init (with_levels [5, 1, 9, 2, 8, 3])"
  have v: "valid_stream ?s" by simp
  have k: "(1::nat) \<le> 3" by simp
  have c: "(0::nat) < 3" "(3::nat) dvd 3" "3 \<le> length (pending ?s)" by simp_all
  from rankIncoming_checkpoint_value[OF v k example_stream c]
  have "[3 \<mapsto> 1, 6 \<mapsto> 5] (3::nat) =
     Some (Min (set (top_levels 3 (map level_m (take 3 (pending ?s))))))"
    by simp
  with v k c example_stream show ?thesis by (intro conjI)
qed

text \<open>
  C7. For every stream and every capacity of at least one, the values of the cutoffs
  returned by \<open>rankIncoming\<close> do not decrease as the keys grow.
\<close>
theorem rankIncoming_checkpoints_monotone:
  assumes "valid_stream s" and "1 \<le> k"
    and "rankIncoming s k = (Inr r, s')"
    and "cutoffs_m r c1 = Some v1" and "cutoffs_m r c2 = Some v2" and "c1 < c2"
  shows "v1 \<le> v2"
proof -
  let ?ps = "pending s"
  have cut: "cutoffs_m r c =
      (if 0 < c \<and> c \<le> length ?ps \<and> (k dvd c \<or> c = length ?ps)
       then Some (bar_after k (take c ?ps)) else None)" for c
    using assms(3) unfolding rankIncoming_ok[OF assms(1,2)] by auto
  from assms(4) have 1: "0 < c1" "c1 \<le> length ?ps" "k dvd c1 \<or> c1 = length ?ps"
    and v1: "v1 = bar_after k (take c1 ?ps)"
    unfolding cut by (simp_all split: if_splits)
  from assms(5) have 2: "0 < c2" "c2 \<le> length ?ps"
    and v2: "v2 = bar_after k (take c2 ?ps)"
    unfolding cut by (simp_all split: if_splits)
  from 1(3) assms(6) 2(2) have "k dvd c1" by auto
  with 1(1) have "k \<le> c1" by (simp add: dvd_imp_le)
  from bar_after_mono[OF assms(2) this less_imp_le[OF assms(6)] 2(2)]
  show ?thesis unfolding v1 v2 .
qed

theorem rankIncoming_checkpoints_monotone_witness:
  "valid_stream (VectorPlayerStream_init (with_levels [5, 1, 9, 2, 8, 3])) \<and> (1::nat) \<le> 3 \<and>
   rankIncoming (VectorPlayerStream_init (with_levels [5, 1, 9, 2, 8, 3])) 3 =
     (Inr \<lparr>top_m = with_levels [5, 8, 9], cutoffs_m = [3 \<mapsto> 1, 6 \<mapsto> 5]\<rparr>,
      \<lparr>players_m = with_levels [5, 1, 9, 2, 8, 3], currentIndex_m = 6\<rparr>) \<and>
   [3 \<mapsto> 1, 6 \<mapsto> 5] (3::nat) = Some (1::nat) \<and>
   [3 \<mapsto> 1, 6 \<mapsto> 5] (6::nat) = Some (5::nat) \<and> (3::nat) < 6 \<and> (1::nat) \<le> 5"
proof -
  let ?s = "VectorPlayerStream_init (with_levels [5, 1, 9, 2, 8, 3])"
  have v: "valid_stream ?s" by simp
  have k: "(1::nat) \<le> 3" by simp
  have c: "cutoffs_m \<lparr>top_m = with_levels [5, 8, 9], cutoffs_m = [3 \<mapsto> 1, 6 \<mapsto> 5]\<rparr> (3::nat) = Some (1::nat)"
    "cutoffs_m \<lparr>top_m = with_levels [5, 8, 9], cutoffs_m = [3 \<mapsto> 1, 6 \<mapsto> 5]\<rparr> (6::nat) = Some (5::nat)"
    "(3::nat) < 6"
    by simp_all
  from rankIncoming_checkpoints_monotone[OF v k example_stream c]
  have "(1::nat) \<le> 5" .
  with v k c example_stream show ?thesis by simp
qed

text \<open>
  C3 asks that, whenever the returned top is not empty, the cutoffs hold the number of
  players processed as a key, with the least level of the returned top as its value. The
  key is there, but the value is the level at the front of the buffer, and a buffer that
  never reached the capacity was never made a heap: for the levels 5, 1 and capacity 3 the
  final cutoff is 5, while the least level of the top is 1.
\<close>
theorem rankIncoming_final_cutoff_short_stream:
  "\<exists>r s'. rankIncoming (VectorPlayerStream_init (with_levels [5, 1])) 3 = (Inr r, s') \<and>
      top_m r = with_levels [1, 5] \<and> cutoffs_m r 2 = Some 5 \<and>
      Min (set (map level_m (top_m r))) = 1"
  unfolding example_short_stream by (simp add: with_levels_def)

text \<open>
  Where the stream holds at least \<open>k\<close> players, the final cutoff is the least level of the
  returned top.
\<close>
lemma rankIncoming_final_cutoff_full_buffer:
  assumes "valid_stream s" and "1 \<le> k" and "k \<le> length (pending s)"
    and "rankIncoming s k = (Inr r, s')"
  shows "cutoffs_m r (length (pending s)) = Some (Min (set (map level_m (top_m r))))"
proof -
  let ?ps = "pending s"
  from final_state_buffer_inv[OF assms(2), of ?ps] obtain rest
    where inv: "buffer_inv k ?ps (fst (final_state k ?ps)) rest" by blast
  from assms(4) have top: "map level_m (top_m r) = top_levels k (map level_m ?ps)"
    unfolding rankIncoming_ok[OF assms(1,2)] using buffer_inv_top_levels[OF inv] by auto
  from assms(2,3) have "0 < length ?ps" by linarith
  with assms(4) have "cutoffs_m r (length ?ps) = Some (bar_after k ?ps)"
    unfolding rankIncoming_ok[OF assms(1,2)] by auto
  then show ?thesis
    unfolding bar_after_is_min[OF assms(2,3)] top .
qed

section \<open>A capacity of zero\<close>

lemma rankIncoming_exhausted:
  "remaining s = 0 \<Longrightarrow> rankIncoming s k = (Inr \<lparr>top_m = [], cutoffs_m = Map.empty\<rparr>, s)"
  by (simp add: rankIncoming_def rankIncoming_loop_stop)

lemma rankIncoming_zero_capacity_nonempty:
  assumes "valid_stream s" and "remaining s \<noteq> 0"
  shows "rankIncoming s 0 = (Inl EmptyFront, s\<lparr>currentIndex_m := currentIndex_m s + 1\<rparr>)"
proof -
  have "rankIncoming_body 0 p ([], Map.empty, 0) = Inl EmptyFront" for p
    by (simp add: rankIncoming_body_def front_def)
  then show ?thesis
    by (simp add: rankIncoming_def rankIncoming_loop_step[OF assms(2) nextPlayer_ok(1)[OF assms]])
qed

text \<open>
  C2 asks that a capacity of 0 is refused with an error before any player is taken from
  the stream. \<open>rankIncoming\<close> has no such check: on a stream with no player left it returns
  an empty result, and on the stream of one player it takes that player and then reads the
  front of its empty buffer.
\<close>
theorem rankIncoming_zero_capacity_counterexample:
  "rankIncoming (VectorPlayerStream_init []) 0 =
     (Inr \<lparr>top_m = [], cutoffs_m = Map.empty\<rparr>, VectorPlayerStream_init []) \<and>
   rankIncoming (VectorPlayerStream_init (with_levels [5])) 0 =
     (Inl EmptyFront, \<lparr>players_m = with_levels [5], currentIndex_m = 1\<rparr>) \<and>
   remaining (VectorPlayerStream_init (with_levels [5])) = 1 \<and>
   remaining \<lparr>players_m = with_levels [5], currentIndex_m = 1\<rparr> = 0"
proof -
  have e: "remaining (VectorPlayerStream_init []) = 0"
    by (simp add: remaining_def size_t_sub_def VectorPlayerStream_init_def)
  have v: "valid_stream (VectorPlayerStream_init (with_levels [5]))" by simp
  have r: "remaining (VectorPlayerStream_init (with_levels [5])) = 1"
    using remaining_pending[OF v] by simp
  then have n: "remaining (VectorPlayerStream_init (with_levels [5])) \<noteq> 0" by simp
  have r': "remaining \<lparr>players_m = with_levels [5], currentIndex_m = 1\<rparr> = 0"
    by (simp add: remaining_def size_t_sub_def)
  from rankIncoming_exhausted[OF e, of 0] rankIncoming_zero_capacity_nonempty[OF v n] r r'
  show ?thesis by (simp add: VectorPlayerStream_init_def)
qed

text \<open>
  C2, amended. With a capacity of 0 and a stream that has no player left, \<open>rankIncoming\<close>
  returns normally, with an empty top and no cutoffs, and leaves the stream as it was.
\<close>
theorem rankIncoming_zero_capacity_exhausted:
  assumes "remaining s = 0"
  shows "rankIncoming s 0 = (Inr \<lparr>top_m = [], cutoffs_m = Map.empty\<rparr>, s)"
  using assms by (rule rankIncoming_exhausted)

theorem rankIncoming_zero_capacity_exhausted_witness:
  "remaining \<lparr>players_m = with_levels [5], currentIndex_m = 1\<rparr> = 0 \<and>
   rankIncoming \<lparr>players_m = with_levels [5], currentIndex_m = 1\<rparr> 0 =
     (Inr \<lparr>top_m = [], cutoffs_m = Map.empty\<rparr>, \<lparr>players_m = with_levels [5], currentIndex_m = 1\<rparr>)"
proof -
  have r: "remaining \<lparr>players_m = with_levels [5], currentIndex_m = 1\<rparr> = 0"
    by (simp add: remaining_def size_t_sub_def)
  from rankIncoming_zero_capacity_exhausted[OF r] r show ?thesis by (intro conjI)
qed

end
